theory Spec2Isabelle
  imports Main "HOL-Library.Word"
begin

section \<open>Shallow embedding of \<open>app/scripts/convert.py\<close>\<close>

text \<open>
  The script rewrites keycode names in keymap files. It reads a file as bytes, decodes it
  as UTF-8, splits it into lines, runs one regular-expression substitution per entry of a
  rename table, joins the lines and writes the bytes back.

  A Python \<open>str\<close> is a sequence of Unicode code points, so text is a list of code points
  (\<open>nat\<close>), and a file is a list of bytes (\<open>8 word\<close>). The library parts the script calls
  (\<open>bytes.decode\<close>, \<open>str.encode\<close>, \<open>str.split\<close>, \<open>str.join\<close>, \<open>re\<close>, \<open>pathlib\<close>, \<open>json\<close>)
  are modelled from their documented behaviour.
\<close>

subsection \<open>Text\<close>

type_synonym cp = nat
type_synonym ustr = "cp list"
type_synonym byte = "8 word"

definition cps :: "string \<Rightarrow> ustr" where
  "cps s = map of_char s"

definition is_digit :: "cp \<Rightarrow> bool" where
  "is_digit c \<longleftrightarrow> 48 \<le> c \<and> c \<le> 57"

text \<open>
  \<open>\w\<close> of a \<open>str\<close> pattern: an alphanumeric character or the underscore. For ASCII that is
  \<open>[A-Za-z0-9_]\<close>; beyond ASCII it is decided by the Unicode character database, which is
  the parameter \<open>uw\<close>.
\<close>

definition is_word :: "(cp \<Rightarrow> bool) \<Rightarrow> cp \<Rightarrow> bool" where
  "is_word uw c \<longleftrightarrow>
     (if c < 128
      then is_digit c \<or> (65 \<le> c \<and> c \<le> 90) \<or> (97 \<le> c \<and> c \<le> 122) \<or> c = 95
      else uw c)"

text \<open>
  \<open>str.split("\n")\<close>: one more piece than there are newlines. The result is never the
  empty list, so the first branch of the \<open>case\<close> is never taken.
\<close>

fun split_nl :: "ustr \<Rightarrow> ustr list" where
  "split_nl [] = [[]]"
| "split_nl (c # cs) =
     (if c = 10 then [] # split_nl cs
      else (case split_nl cs of [] \<Rightarrow> [[c]] | l # ls \<Rightarrow> (c # l) # ls))"

text \<open>\<open>"\n".join(lines)\<close>.\<close>

fun join_nl :: "ustr list \<Rightarrow> ustr" where
  "join_nl [] = []"
| "join_nl [l] = l"
| "join_nl (l # ls) = l @ 10 # join_nl ls"

text \<open>The decimal digits of a number, as an f-string prints \<open>len(...)\<close>.\<close>

fun decimal :: "nat \<Rightarrow> ustr" where
  "decimal n = (if n < 10 then [48 + n] else decimal (n div 10) @ [48 + n mod 10])"

declare decimal.simps [simp del]

subsection \<open>UTF-8\<close>

text \<open>
  \<open>bytes.decode("utf-8")\<close> in strict mode: the shortest form only, no surrogates,
  nothing above U+10FFFF; any other byte sequence raises \<open>UnicodeDecodeError\<close> (\<open>None\<close>).
\<close>

definition cont :: "nat \<Rightarrow> bool" where
  "cont b \<longleftrightarrow> 128 \<le> b \<and> b < 192"

definition surrogate :: "cp \<Rightarrow> bool" where
  "surrogate c \<longleftrightarrow> 55296 \<le> c \<and> c \<le> 57343"

fun utf8_dec :: "nat list \<Rightarrow> ustr option" where
  "utf8_dec [] = Some []"
| "utf8_dec (b0 # bs) =
     (if b0 < 128 then map_option ((#) b0) (utf8_dec bs)
      else if 192 \<le> b0 \<and> b0 < 224 then
        (case bs of
           b1 # r \<Rightarrow>
             (let c = (b0 - 192) * 64 + (b1 - 128)
              in if cont b1 \<and> 128 \<le> c then map_option ((#) c) (utf8_dec r) else None)
         | _ \<Rightarrow> None)
      else if 224 \<le> b0 \<and> b0 < 240 then
        (case bs of
           b1 # b2 # r \<Rightarrow>
             (let c = (b0 - 224) * 4096 + (b1 - 128) * 64 + (b2 - 128)
              in if cont b1 \<and> cont b2 \<and> 2048 \<le> c \<and> \<not> surrogate c
                 then map_option ((#) c) (utf8_dec r) else None)
         | _ \<Rightarrow> None)
      else if 240 \<le> b0 \<and> b0 < 248 then
        (case bs of
           b1 # b2 # b3 # r \<Rightarrow>
             (let c = (b0 - 240) * 262144 + (b1 - 128) * 4096 + (b2 - 128) * 64 + (b3 - 128)
              in if cont b1 \<and> cont b2 \<and> cont b3 \<and> 65536 \<le> c \<and> c < 1114112
                 then map_option ((#) c) (utf8_dec r) else None)
         | _ \<Rightarrow> None)
      else None)"

definition decode_utf8 :: "byte list \<Rightarrow> ustr option" where
  "decode_utf8 bs = utf8_dec (map unat bs)"

text \<open>
  \<open>str.encode("utf-8")\<close>: a surrogate raises \<open>UnicodeEncodeError\<close> (\<open>None\<close>); a \<open>str\<close>
  holds no code point above U+10FFFF, and the model refuses one.
\<close>

definition utf8_enc1 :: "cp \<Rightarrow> nat list option" where
  "utf8_enc1 c =
     (if c < 128 then Some [c]
      else if c < 2048 then Some [192 + c div 64, 128 + c mod 64]
      else if surrogate c then None
      else if c < 65536 then Some [224 + c div 4096, 128 + c div 64 mod 64, 128 + c mod 64]
      else if c < 1114112
        then Some [240 + c div 262144, 128 + c div 4096 mod 64, 128 + c div 64 mod 64,
                   128 + c mod 64]
      else None)"

fun utf8_enc :: "ustr \<Rightarrow> nat list option" where
  "utf8_enc [] = Some []"
| "utf8_enc (c # cs) =
     (case utf8_enc1 c of
        None \<Rightarrow> None
      | Some bs \<Rightarrow> (case utf8_enc cs of None \<Rightarrow> None | Some r \<Rightarrow> Some (bs @ r)))"

definition encode_utf8 :: "ustr \<Rightarrow> byte list option" where
  "encode_utf8 s = map_option (map of_nat) (utf8_enc s)"

subsection \<open>The keycode pattern\<close>

text \<open>
  The pattern is \<^verbatim>\<open>(&(inc_dec_[kc]p|\w{2}) \w*)\b{old_keycode}\b\<close>. The old keycode is
  spliced into the pattern text; the model reads it as a literal, which is what \<open>re\<close> does
  for a keycode without pattern metacharacters (\<open>literal_pattern\<close> below). Old keycodes
  with pattern metacharacters are outside the model.

  A match attempt at position \<open>i\<close> follows the backtracking order of \<open>re\<close>: the first
  alternative of the anchor before the second, and for each the greedy \<open>\w*\<close> from its
  longest run down to the empty one. A match is the triple of its start, the end of
  group 1 and its end.
\<close>

definition word_at :: "(cp \<Rightarrow> bool) \<Rightarrow> ustr \<Rightarrow> nat \<Rightarrow> bool" where
  "word_at uw s p \<longleftrightarrow> p < length s \<and> is_word uw (s ! p)"

text \<open>\<open>\b\<close>: exactly one of the characters before and after the position is a word character.\<close>

definition at_boundary :: "(cp \<Rightarrow> bool) \<Rightarrow> ustr \<Rightarrow> nat \<Rightarrow> bool" where
  "at_boundary uw s p \<longleftrightarrow> ((0 < p \<and> word_at uw s (p - 1)) \<noteq> word_at uw s p)"

definition lit_at :: "ustr \<Rightarrow> nat \<Rightarrow> ustr \<Rightarrow> bool" where
  "lit_at s p t \<longleftrightarrow> take (length t) (drop p s) = t"

definition word_run :: "(cp \<Rightarrow> bool) \<Rightarrow> ustr \<Rightarrow> nat \<Rightarrow> nat" where
  "word_run uw s p = length (takeWhile (is_word uw) (drop p s))"

fun first_some :: "('a \<Rightarrow> 'b option) \<Rightarrow> 'a list \<Rightarrow> 'b option" where
  "first_some f [] = None"
| "first_some f (x # xs) = (case f x of Some y \<Rightarrow> Some y | None \<Rightarrow> first_some f xs)"

text \<open>
  The positions just after the anchor name for an \<open>&\<close> at \<open>i\<close>, in the order the
  alternation tries them: \<open>inc_dec_[kc]p\<close>, then \<open>\w{2}\<close>.
\<close>

definition anchor_ends :: "(cp \<Rightarrow> bool) \<Rightarrow> ustr \<Rightarrow> nat \<Rightarrow> nat list" where
  "anchor_ends uw s i =
     (if lit_at s (i + 1) (cps ''inc_dec_'')
         \<and> i + 9 < length s \<and> (s ! (i + 9) = 107 \<or> s ! (i + 9) = 99)
         \<and> i + 10 < length s \<and> s ! (i + 10) = 112
      then [i + 11] else [])
     @ (if word_at uw s (i + 1) \<and> word_at uw s (i + 2) then [i + 3] else [])"

text \<open>
  The rest of the pattern from the anchor end \<open>j\<close>: a space, \<open>\w*\<close>, \<open>\b\<close>, the old keycode,
  \<open>\b\<close>. The result is where the old keycode starts, which is where group 1 ends.
\<close>

definition token_after :: "(cp \<Rightarrow> bool) \<Rightarrow> ustr \<Rightarrow> ustr \<Rightarrow> nat \<Rightarrow> nat option" where
  "token_after uw s old j =
     (if j < length s \<and> s ! j = 32
      then find (\<lambda>m. at_boundary uw s m \<and> lit_at s m old \<and> at_boundary uw s (m + length old))
             (rev [j + 1 ..< j + 1 + word_run uw s (j + 1) + 1])
      else None)"

definition match_at ::
  "(cp \<Rightarrow> bool) \<Rightarrow> ustr \<Rightarrow> ustr \<Rightarrow> nat \<Rightarrow> (nat \<times> nat \<times> nat) option" where
  "match_at uw s old i =
     (if i < length s \<and> s ! i = 38
      then map_option (\<lambda>m. (i, m, m + length old))
             (first_some (token_after uw s old) (anchor_ends uw s i))
      else None)"

text \<open>\<open>regex.search(line)\<close> from position \<open>pos\<close>: the match at the leftmost start.\<close>

definition re_search ::
  "(cp \<Rightarrow> bool) \<Rightarrow> ustr \<Rightarrow> ustr \<Rightarrow> nat \<Rightarrow> (nat \<times> nat \<times> nat) option" where
  "re_search uw s old pos = first_some (match_at uw s old) [pos ..< length s]"

lemma first_some_SomeD: "first_some f xs = Some y \<Longrightarrow> \<exists>x\<in>set xs. f x = Some y"
  by (induction xs) (auto split: option.splits)

lemma find_SomeD: "find P xs = Some x \<Longrightarrow> x \<in> set xs \<and> P x"
  by (induction xs) (auto split: if_splits)

lemma token_after_SomeD:
  assumes "token_after uw s old j = Some m"
  shows "j < length s" "s ! j = 32" "j < m" "m \<le> j + 1 + word_run uw s (j + 1)"
    "at_boundary uw s m" "lit_at s m old" "at_boundary uw s (m + length old)"
  using assms by (auto simp: token_after_def split: if_splits dest!: find_SomeD)

lemma anchor_ends_gt: "j \<in> set (anchor_ends uw s i) \<Longrightarrow> i < j"
  by (auto simp: anchor_ends_def split: if_splits)

lemma match_at_SomeD:
  assumes "match_at uw s old i = Some (i', g, e)"
  shows "i' = i" "i < length s" "s ! i = 38" "e = g + length old"
    "\<exists>j\<in>set (anchor_ends uw s i). token_after uw s old j = Some g"
  using assms by (auto simp: match_at_def split: if_splits dest: first_some_SomeD)

lemma match_at_bounds: "match_at uw s old i = Some (i', g, e) \<Longrightarrow> i < g \<and> g \<le> e"
  using match_at_SomeD(4,5)[of uw s old i i' g e]
  by (auto dest!: token_after_SomeD(3) anchor_ends_gt)

lemma re_search_SomeD:
  assumes "re_search uw s old pos = Some (i, g, e)"
  shows "pos \<le> i" "i < length s" "match_at uw s old i = Some (i, g, e)"
proof -
  from assms obtain x where x: "x \<in> set [pos ..< length s]" "match_at uw s old x = Some (i, g, e)"
    unfolding re_search_def by (blast dest: first_some_SomeD)
  moreover from x(2) have "i = x" by (simp add: match_at_SomeD(1))
  ultimately show "pos \<le> i" "i < length s" "match_at uw s old i = Some (i, g, e)" by auto
qed

lemma re_search_advances:
  "re_search uw s old pos = Some (i, g, e) \<Longrightarrow> length s - e < length s - pos"
  using re_search_SomeD(1,2,3)[of uw s old pos i g e] match_at_bounds[of uw s old i i g e]
  by linarith

text \<open>
  \<open>regex.sub(template, line)\<close> with the template \<^verbatim>\<open>\1{new_keycode}\<close>: the matches are
  found from left to right, each search starting where the last match ended; the text
  between matches is copied and each match is replaced by its group 1 followed by the new
  keycode. The template is read as group 1 and a literal; that is what \<open>re\<close> does when the
  new keycode holds no backslash and does not start with a digit
  (\<open>literal_replacement\<close> below). Other new keycodes are outside the model.
\<close>

function re_sub_from :: "(cp \<Rightarrow> bool) \<Rightarrow> ustr \<Rightarrow> ustr \<Rightarrow> ustr \<Rightarrow> nat \<Rightarrow> ustr" where
  "re_sub_from uw s old new pos =
     (case re_search uw s old pos of
        None \<Rightarrow> drop pos s
      | Some (i, g, e) \<Rightarrow>
          take (i - pos) (drop pos s) @ (take (g - i) (drop i s) @ new)
            @ re_sub_from uw s old new e)"
  by pat_completeness auto
termination
  by (relation "measure (\<lambda>(uw, s, old, new, pos). length s - pos)")
     (auto dest: re_search_advances)

declare re_sub_from.simps [simp del]

definition re_sub :: "(cp \<Rightarrow> bool) \<Rightarrow> ustr \<Rightarrow> ustr \<Rightarrow> ustr \<Rightarrow> ustr" where
  "re_sub uw s old new = re_sub_from uw s old new 0"

text \<open>
  The keycodes for which the model of the pattern and of the template is exact: an old
  keycode with none of the special characters \<^verbatim>\<open>. ^ $ * + ? { } [ ] \ | ( )\<close> of a
  pattern, a new keycode with no backslash and no leading digit. A keycode written with
  word characters only, as keycode names are, is \<open>plain_keycode\<close>.
\<close>

definition metachar :: "cp \<Rightarrow> bool" where
  "metachar c \<longleftrightarrow> c \<in> set [46, 94, 36, 42, 43, 63, 123, 125, 91, 93, 92, 124, 40, 41]"

definition literal_pattern :: "ustr \<Rightarrow> bool" where
  "literal_pattern t \<longleftrightarrow> list_all (\<lambda>c. \<not> metachar c) t"

definition plain_keycode :: "(cp \<Rightarrow> bool) \<Rightarrow> ustr \<Rightarrow> bool" where
  "plain_keycode uw t \<longleftrightarrow> t \<noteq> [] \<and> list_all (is_word uw) t"

definition literal_replacement :: "ustr \<Rightarrow> bool" where
  "literal_replacement t \<longleftrightarrow>
     92 \<notin> set t \<and> (case t of [] \<Rightarrow> True | c # _ \<Rightarrow> \<not> is_digit c)"

type_synonym substitution = "ustr \<times> ustr option"

definition modelled_table :: "substitution list \<Rightarrow> bool" where
  "modelled_table subs \<longleftrightarrow>
     list_all (\<lambda>sub. literal_pattern (fst sub)
        \<and> (case snd sub of None \<Rightarrow> True | Some n \<Rightarrow> literal_replacement n)) subs"

subsection \<open>The file system and the console\<close>

text \<open>
  The world the script acts on: the regular files with their bytes, the directories, the
  lines printed so far, and a log of the paths given to \<open>write_bytes\<close>, in order. The log
  is not in the source; it is what makes \<open>a write was performed\<close> a statement about the
  model. Every existing file is readable and writable.
\<close>

type_synonym path = ustr

record world =
  files :: "path \<rightharpoonup> byte list"
  dirs :: "path \<Rightarrow> bool"
  console :: "ustr list"
  writes :: "path list"

datatype error =
    OSError
  | UnicodeDecodeError
  | UnicodeEncodeError
  | JSONDecodeError
  | KeyError ustr
  | TypeError
  | OutsideModel

definition print :: "ustr \<Rightarrow> world \<Rightarrow> world" where
  "print line w = w\<lparr>console := console w @ [line]\<rparr>"

definition write_bytes :: "path \<Rightarrow> byte list \<Rightarrow> world \<Rightarrow> world" where
  "write_bytes p bs w = w\<lparr>files := (files w)(p \<mapsto> bs), writes := writes w @ [p]\<rparr>"

definition is_file :: "world \<Rightarrow> path \<Rightarrow> bool" where
  "is_file w p \<longleftrightarrow> files w p \<noteq> None"

definition is_dir :: "world \<Rightarrow> path \<Rightarrow> bool" where
  "is_dir w p \<longleftrightarrow> dirs w p"

text \<open>
  \<open>Path.suffix\<close>: the last dot of the final path component and what follows it, when that
  dot is neither the first nor the last character of the component; otherwise empty.
\<close>

definition name_of :: "path \<Rightarrow> ustr" where
  "name_of p = rev (takeWhile (\<lambda>c. c \<noteq> 47) (rev p))"

definition suffix_of :: "path \<Rightarrow> ustr" where
  "suffix_of p =
     (let n = name_of p; ext = rev (takeWhile (\<lambda>c. c \<noteq> 46) (rev n))
      in if 46 \<in> set n \<and> ext \<noteq> [] \<and> length ext + 1 < length n then 46 # ext else [])"

subsection \<open>\<open>format_file\<close>\<close>

definition no_replacement_msg :: "path \<Rightarrow> ustr \<Rightarrow> ustr" where
  "no_replacement_msg p old =
     p @ cps '' contains '' @ old @ cps '', which currently has no replacement!''"

definition would_replace_msg :: "ustr \<Rightarrow> ustr \<Rightarrow> nat \<Rightarrow> ustr" where
  "would_replace_msg old new n =
     cps ''Would have replaced '' @ old @ cps '' with '' @ new @ cps '' on '' @ decimal n
       @ cps '' lines.''"

text \<open>The truth value of \<open>old_keycode_regex.search(line)\<close>: there is a match.\<close>

definition found :: "(cp \<Rightarrow> bool) \<Rightarrow> ustr \<Rightarrow> ustr \<Rightarrow> bool" where
  "found uw line old \<longleftrightarrow> re_search uw line old 0 \<noteq> None"

text \<open>The indices of the lines the pattern is found in (\<open>lines_to_update\<close>).\<close>

definition lines_to_update :: "(cp \<Rightarrow> bool) \<Rightarrow> ustr list \<Rightarrow> ustr \<Rightarrow> nat list" where
  "lines_to_update uw keymap_file old =
     filter (\<lambda>i. found uw (keymap_file ! i) old) [0 ..< length keymap_file]"

text \<open>The inner loop: each listed line is replaced, in place, by its substitution.\<close>

definition update_lines ::
  "(cp \<Rightarrow> bool) \<Rightarrow> ustr \<Rightarrow> ustr \<Rightarrow> ustr list \<Rightarrow> nat list \<Rightarrow> ustr list" where
  "update_lines uw old new keymap_file idxs =
     foldl (\<lambda>kf i. kf[i := re_sub uw (kf ! i) old new]) keymap_file idxs"

text \<open>
  One iteration of the loop over the table. The state is the list of lines and the lines
  printed by this call so far.
\<close>

definition substitute ::
  "(cp \<Rightarrow> bool) \<Rightarrow> bool \<Rightarrow> path \<Rightarrow> ustr list \<times> ustr list \<Rightarrow> substitution
     \<Rightarrow> ustr list \<times> ustr list" where
  "substitute uw dry_run p st sub =
     (case st of (keymap_file, out) \<Rightarrow>
      case sub of (old_keycode, new_keycode) \<Rightarrow>
        (let to_update = lines_to_update uw keymap_file old_keycode
         in if to_update = [] then (keymap_file, out)
            else case new_keycode of
                   None \<Rightarrow> (keymap_file, out @ [no_replacement_msg p old_keycode])
                 | Some new \<Rightarrow>
                     if dry_run
                     then (keymap_file,
                           out @ [would_replace_msg old_keycode new (length to_update)])
                     else (update_lines uw old_keycode new keymap_file to_update, out)))"

definition substitute_all ::
  "(cp \<Rightarrow> bool) \<Rightarrow> bool \<Rightarrow> path \<Rightarrow> substitution list \<Rightarrow> ustr list \<Rightarrow> ustr list \<times> ustr list" where
  "substitute_all uw dry_run p subs keymap_file =
     foldl (substitute uw dry_run p) (keymap_file, []) subs"

text \<open>
  The whole function. The result is the exception raised, if any, and the world left
  behind. The write-back comes after the loop, whatever the loop did.
\<close>

definition format_file ::
  "(cp \<Rightarrow> bool) \<Rightarrow> bool \<Rightarrow> world \<Rightarrow> path \<Rightarrow> substitution list \<Rightarrow> error option \<times> world" where
  "format_file uw dry_run w p subs =
     (case files w p of
        None \<Rightarrow> (Some OSError, w)
      | Some keymap_file_bytes \<Rightarrow>
          (case decode_utf8 keymap_file_bytes of
             None \<Rightarrow> (Some UnicodeDecodeError, w)
           | Some decoded \<Rightarrow>
               (case substitute_all uw dry_run p subs (split_nl decoded) of
                  (keymap_file, out) \<Rightarrow>
                    (let w1 = w\<lparr>console := console w @ out\<rparr>
                     in case encode_utf8 (join_nl keymap_file) of
                          None \<Rightarrow> (Some UnicodeEncodeError, w1)
                        | Some new_keymap_file_bytes \<Rightarrow>
                            (None, write_bytes p new_keymap_file_bytes w1)))))"

subsection \<open>\<open>load_substitutions\<close>\<close>

text \<open>
  What \<open>json.load\<close> returns: \<open>None\<close>, a bool, a number (kept as its literal text), a
  \<open>str\<close>, a list, or a dict, given by its items in order with distinct keys.
\<close>

datatype json =
    JNull
  | JBool bool
  | JNum ustr
  | JStr ustr
  | JArr "json list"
  | JObj "(ustr \<times> json) list"

text \<open>
  \<open>s[key]\<close> for a string key: the value of the key in a dict, \<open>KeyError\<close> when the dict
  has no such key, \<open>TypeError\<close> for anything that is not a dict.
\<close>

definition subscript :: "json \<Rightarrow> ustr \<Rightarrow> error + json" where
  "subscript s k =
     (case s of
        JObj items \<Rightarrow> (case map_of items k of None \<Rightarrow> Inl (KeyError k) | Some v \<Rightarrow> Inr v)
      | _ \<Rightarrow> Inl TypeError)"

text \<open>
  \<open>for s in substitution_json\<close>: the elements of a list, the keys of a dict, the
  characters of a string; anything else is not iterable.
\<close>

definition iterate :: "json \<Rightarrow> error + json list" where
  "iterate j =
     (case j of
        JArr xs \<Rightarrow> Inr xs
      | JObj items \<Rightarrow> Inr (map (\<lambda>kv. JStr (fst kv)) items)
      | JStr cs \<Rightarrow> Inr (map (\<lambda>c. JStr [c]) cs)
      | _ \<Rightarrow> Inl TypeError)"

text \<open>The comprehension \<^verbatim>\<open>[(s["from"], s["to"]) for s in substitution_json]\<close>.\<close>

fun from_to_pairs :: "json list \<Rightarrow> error + (json \<times> json) list" where
  "from_to_pairs [] = Inr []"
| "from_to_pairs (s # rest) =
     (case subscript s (cps ''from'') of
        Inl e \<Rightarrow> Inl e
      | Inr f \<Rightarrow>
          (case subscript s (cps ''to'') of
             Inl e \<Rightarrow> Inl e
           | Inr t \<Rightarrow>
               (case from_to_pairs rest of
                  Inl e \<Rightarrow> Inl e
                | Inr r \<Rightarrow> Inr ((f, t) # r))))"

text \<open>
  The function on the value \<open>json.load\<close> returned, and with the file access: \<open>json_load\<close>
  stands for \<open>open\<close> in text mode followed by \<open>json.load\<close>, from the bytes of the file to
  the value or the exception.
\<close>

definition substitutions_of :: "json \<Rightarrow> error + (json \<times> json) list" where
  "substitutions_of substitution_json =
     (case iterate substitution_json of Inl e \<Rightarrow> Inl e | Inr xs \<Rightarrow> from_to_pairs xs)"

definition load_substitutions ::
  "(byte list \<Rightarrow> error + json) \<Rightarrow> world \<Rightarrow> path \<Rightarrow> error + (json \<times> json) list" where
  "load_substitutions json_load w substitution_file_path =
     (case files w substitution_file_path of
        None \<Rightarrow> Inl OSError
      | Some bs \<Rightarrow>
          (case json_load bs of
             Inl e \<Rightarrow> Inl e
           | Inr substitution_json \<Rightarrow> substitutions_of substitution_json))"

subsection \<open>\<open>main\<close>\<close>

record args =
  keymap_path :: path
  substitution_file :: path
  dry_run :: bool

text \<open>
  The table as \<open>format_file\<close> uses it. A \<open>from\<close> that is not a string, or a \<open>to\<close> that is
  neither a string nor null, would be formatted into the pattern or the template by the
  f-strings; the model does not follow that, and \<open>main\<close> gives \<open>OutsideModel\<close> for it.
\<close>

fun keycodes_of :: "(json \<times> json) list \<Rightarrow> substitution list option" where
  "keycodes_of [] = Some []"
| "keycodes_of ((JStr old, JNull) # rest) = map_option ((#) (old, None)) (keycodes_of rest)"
| "keycodes_of ((JStr old, JStr new) # rest) =
     map_option ((#) (old, Some new)) (keycodes_of rest)"
| "keycodes_of _ = None"

text \<open>The loop over the keymap files found in a directory; an exception ends it.\<close>

fun format_each ::
  "(cp \<Rightarrow> bool) \<Rightarrow> bool \<Rightarrow> substitution list \<Rightarrow> path list \<Rightarrow> world \<Rightarrow> error option \<times> world" where
  "format_each uw dry subs [] w = (None, w)"
| "format_each uw dry subs (keymap_file # rest) w =
     (case format_file uw dry (print (cps ''Sorting out '' @ keymap_file @ cps ''....'') w)
             keymap_file subs of
        (Some e, w') \<Rightarrow> (Some e, w')
      | (None, w') \<Rightarrow> format_each uw dry subs rest w')"

text \<open>
  \<open>glob\<close> stands for \<^verbatim>\<open>keymap_file_path.glob("**/*.keymap")\<close>: the paths it yields for a
  directory of a world, in the order it yields them.
\<close>

definition main ::
  "(cp \<Rightarrow> bool) \<Rightarrow> (byte list \<Rightarrow> error + json) \<Rightarrow> (world \<Rightarrow> path \<Rightarrow> path list)
     \<Rightarrow> args \<Rightarrow> world \<Rightarrow> error option \<times> world" where
  "main uw json_load glob a w =
     (let json_file_path = substitution_file a
      in if \<not> is_file w json_file_path
         then (None, print (substitution_file a
                 @ cps '' doesn't point to a file! Aborting...'') w)
         else if suffix_of json_file_path \<noteq> cps ''.json''
         then (None, print (substitution_file a
                 @ cps '' doesn't point to a JSON file! Aborting...'') w)
         else
           (case load_substitutions json_load w (substitution_file a) of
              Inl e \<Rightarrow> (Some e, w)
            | Inr loaded \<Rightarrow>
                (case keycodes_of loaded of
                   None \<Rightarrow> (Some OutsideModel, w)
                 | Some substitutions \<Rightarrow>
                     (let keymap_file_path = keymap_path a
                      in if is_dir w keymap_file_path
                         then format_each uw (dry_run a) substitutions
                                (glob w keymap_file_path) w
                         else if is_file w keymap_file_path
                                 \<and> suffix_of keymap_file_path = cps ''.keymap''
                         then format_file uw (dry_run a) w keymap_file_path substitutions
                         else (None, print (keymap_path a
                                 @ cps '' doesn't point to a folder or a keymap file! Aborting...'')
                                 w)))))"

section \<open>Notions used to state the properties\<close>

text \<open>What one iteration of the loop prints, given the lines it sees.\<close>

definition report ::
  "(cp \<Rightarrow> bool) \<Rightarrow> bool \<Rightarrow> path \<Rightarrow> ustr list \<Rightarrow> substitution \<Rightarrow> ustr list" where
  "report uw dry p kf sub =
     (if lines_to_update uw kf (fst sub) = [] then []
      else case snd sub of
             None \<Rightarrow> [no_replacement_msg p (fst sub)]
           | Some n \<Rightarrow>
               if dry
               then [would_replace_msg (fst sub) n (length (lines_to_update uw kf (fst sub)))]
               else [])"

text \<open>
  One substitution as a pass over the whole file, in the words of the specification: every
  line goes through the substitution of the old keycode by the new one; an entry without
  a replacement changes nothing.
\<close>

definition pass :: "(cp \<Rightarrow> bool) \<Rightarrow> substitution \<Rightarrow> ustr list \<Rightarrow> ustr list" where
  "pass uw sub kf =
     (case snd sub of None \<Rightarrow> kf | Some n \<Rightarrow> map (\<lambda>l. re_sub uw l (fst sub) n) kf)"

text \<open>
  Replacing, in a line, the \<open>n\<close> characters at each of the positions \<open>ms\<close> by the new
  keycode and keeping every other character; the positions are increasing, do not
  overlap and each satisfies \<open>P\<close>.
\<close>

fun splice :: "ustr \<Rightarrow> nat \<Rightarrow> ustr \<Rightarrow> nat list \<Rightarrow> nat \<Rightarrow> ustr" where
  "splice s n new [] pos = drop pos s"
| "splice s n new (m # ms) pos = take (m - pos) (drop pos s) @ new @ splice s n new ms (m + n)"

fun sites :: "(nat \<Rightarrow> bool) \<Rightarrow> nat \<Rightarrow> nat list \<Rightarrow> nat \<Rightarrow> bool" where
  "sites P n [] pos = True"
| "sites P n (m # ms) pos = (pos \<le> m \<and> P m \<and> sites P n ms (m + n))"

text \<open>The old keycode stands at position \<open>m\<close> of the line.\<close>

definition token_site :: "ustr \<Rightarrow> ustr \<Rightarrow> nat \<Rightarrow> bool" where
  "token_site s old m \<longleftrightarrow> lit_at s m old \<and> m + length old \<le> length s"

text \<open>
  The matches that \<open>sub\<close> replaces in a line, scanning from position \<open>pos\<close>: each is the
  match of the pattern at the first position, from where the scan stands, that has one,
  given as its start, the end of its first group and its end; the scan goes on from the
  end of the match, and after the last match no position has one.
\<close>

fun match_sites ::
  "(cp \<Rightarrow> bool) \<Rightarrow> ustr \<Rightarrow> ustr \<Rightarrow> (nat \<times> nat \<times> nat) list \<Rightarrow> nat \<Rightarrow> bool" where
  "match_sites uw s old [] pos =
     list_all (\<lambda>j. match_at uw s old j = None) [pos ..< length s]"
| "match_sites uw s old (m # ms) pos =
     (pos \<le> fst m
      \<and> list_all (\<lambda>j. match_at uw s old j = None) [pos ..< fst m]
      \<and> match_at uw s old (fst m) = Some m
      \<and> match_sites uw s old ms (snd (snd m)))"

text \<open>
  The line with each of these matches replaced by the text of its first group followed by
  the new keycode, and every character outside the matches copied.
\<close>

fun replace_regions :: "ustr \<Rightarrow> ustr \<Rightarrow> (nat \<times> nat \<times> nat) list \<Rightarrow> nat \<Rightarrow> ustr" where
  "replace_regions s new [] pos = drop pos s"
| "replace_regions s new (m # ms) pos =
     take (fst m - pos) (drop pos s)
       @ (take (fst (snd m) - fst m) (drop (fst m) s) @ new)
       @ replace_regions s new ms (snd (snd m))"

text \<open>
  Position \<open>m\<close> is that of the first argument of a binding: just before it stand \<open>&\<close>, two
  word characters and one space, or \<open>&inc_dec_kp\<close> or \<open>&inc_dec_cp\<close> and one space.
\<close>

definition first_argument :: "(cp \<Rightarrow> bool) \<Rightarrow> ustr \<Rightarrow> nat \<Rightarrow> bool" where
  "first_argument uw s m \<longleftrightarrow>
     m - 1 < length s \<and> s ! (m - 1) = 32 \<and>
     ((4 \<le> m \<and> s ! (m - 4) = 38 \<and> word_at uw s (m - 3) \<and> word_at uw s (m - 2))
      \<or> (12 \<le> m \<and> s ! (m - 12) = 38 \<and> lit_at s (m - 11) (cps ''inc_dec_'')
          \<and> (s ! (m - 3) = 107 \<or> s ! (m - 3) = 99) \<and> s ! (m - 2) = 112))"

definition first_arg_site :: "(cp \<Rightarrow> bool) \<Rightarrow> ustr \<Rightarrow> ustr \<Rightarrow> nat \<Rightarrow> bool" where
  "first_arg_site uw s old m \<longleftrightarrow> first_argument uw s m \<and> lit_at s m old"

section \<open>Example inputs\<close>

text \<open>A Unicode database with no word character beyond ASCII.\<close>

definition ascii_only :: "cp \<Rightarrow> bool" where
  "ascii_only c = False"

text \<open>
  A rename table as a parsed JSON array: one entry without replacement, one with, its
  keys in the other order.
\<close>

definition table_objs :: "(ustr \<times> json) list list" where
  "table_objs =
     [[(cps ''from'', JStr (cps ''A'')), (cps ''to'', JNull)],
      [(cps ''to'', JStr (cps ''C'')), (cps ''from'', JStr (cps ''B''))]]"

definition table_json_load :: "byte list \<Rightarrow> error + json" where
  "table_json_load bs = Inr (JArr (map JObj table_objs))"

definition table_path :: path where
  "table_path = cps ''substitutions.json''"

definition table_world :: world where
  "table_world =
     \<lparr>files = [table_path \<mapsto> []], dirs = (\<lambda>p. False), console = [], writes = []\<rparr>"

text \<open>The arguments of a run whose table argument names a text file.\<close>

definition txt_args :: args where
  "txt_args =
     \<lparr>keymap_path = cps ''my.keymap'', substitution_file = cps ''table.txt'', dry_run = False\<rparr>"

definition txt_world :: world where
  "txt_world =
     \<lparr>files = [cps ''table.txt'' \<mapsto> [], cps ''my.keymap'' \<mapsto> []],
      dirs = (\<lambda>p. False), console = [], writes = []\<rparr>"

definition no_glob :: "world \<Rightarrow> path \<Rightarrow> path list" where
  "no_glob w p = []"

text \<open>A keymap file of ASCII text, given by its lines.\<close>

definition ascii_bytes :: "string \<Rightarrow> byte list" where
  "ascii_bytes s = map of_char s"

definition my_keymap :: path where
  "my_keymap = cps ''my.keymap''"

definition keymap_world :: "byte list \<Rightarrow> world" where
  "keymap_world bs =
     \<lparr>files = [my_keymap \<mapsto> bs], dirs = (\<lambda>p. False), console = [], writes = []\<rparr>"

text \<open>A keymap file of three lines and a table of three entries.\<close>

definition dry_lines :: "ustr list" where
  "dry_lines = [cps ''&kp OLD'', cps ''&kp GONE'', cps ''&mt LSHIFT OLD'']"

definition dry_bytes :: "byte list" where
  "dry_bytes = ascii_bytes ''&kp OLD'' @ [10] @ ascii_bytes ''&kp GONE'' @ [10]
     @ ascii_bytes ''&mt LSHIFT OLD''"

definition dry_table :: "substitution list" where
  "dry_table = [(cps ''OLD'', Some (cps ''NEW'')), (cps ''GONE'', None),
                (cps ''ABSENT'', Some (cps ''OTHER''))]"

text \<open>
  A file with characters of two, three and four bytes (U+00E9, U+20AC, U+1F600), and its
  text.
\<close>

definition utf8_bytes :: "byte list" where
  "utf8_bytes = [38, 107, 112, 32, 195, 169, 10, 226, 130, 172, 32, 240, 159, 152, 128]"

definition utf8_text :: ustr where
  "utf8_text = [38, 107, 112, 32, 233, 10, 8364, 32, 128512]"




text \<open>A table whose second entry renames what the first one produces.\<close>

definition chain_bytes :: "byte list" where
  "chain_bytes = ascii_bytes ''&kp A'' @ [10] @ ascii_bytes ''&kp B''"

definition chain_lines :: "ustr list" where
  "chain_lines = [cps ''&kp A'', cps ''&kp B'']"

definition chain_table :: "substitution list" where
  "chain_table = [(cps ''A'', Some (cps ''B'')), (cps ''B'', Some (cps ''C''))]"

text \<open>Lines with one binding each, and the table that renames \<open>OLD\<close> to \<open>NEW\<close>.\<close>

definition kp_lines :: "ustr list" where
  "kp_lines = [cps ''&kp OLD'', cps ''&kp OLDX'']"

definition kp_bytes :: "byte list" where
  "kp_bytes = ascii_bytes ''&kp OLD'' @ [10] @ ascii_bytes ''&kp OLDX''"

definition old_new :: "substitution list" where
  "old_new = [(cps ''OLD'', Some (cps ''NEW''))]"

definition inc_dec_lines :: "ustr list" where
  "inc_dec_lines = [cps ''&inc_dec_kp OLD'', cps ''&inc_dec_cp OLD'', cps ''&kp OLD'']"

text \<open>Lines with several bindings.\<close>

definition swap_lines :: "ustr list" where
  "swap_lines = [cps ''  bindings = <&kp OLD &mt LSHIFT OLD &inc_dec_kp OLD>;'',
                 cps ''&kp OTHER'']"

text \<open>The matches of \<open>OLD\<close> in the first of these lines, and a table of two renamings.\<close>

definition swap_sites :: "(nat \<times> nat \<times> nat) list" where
  "swap_sites = [(14, 18, 21), (37, 49, 52)]"

definition swap_table :: "substitution list" where
  "swap_table = [(cps ''OLD'', Some (cps ''NEW'')), (cps ''LSHIFT'', Some (cps ''LSHFT''))]"

definition mt_lines :: "ustr list" where
  "mt_lines = [cps ''&mt MOD OLD'', cps ''&kp OLD OLD'']"




section \<open>Properties of the library model\<close>

lemma enc1_one: "b0 < 128 \<Longrightarrow> utf8_enc1 b0 = Some [b0]"
  by (simp add: utf8_enc1_def)

lemma split_byte: "lo \<le> (b::nat) \<Longrightarrow> \<exists>x. b = lo + x"
  by presburger

lemma base64_digit:
  fixes q r :: nat
  assumes "r < 64"
  shows "(q * 64 + r) div 64 = q" "(q * 64 + r) mod 64 = r"
  using assms by simp_all

lemma enc1_two:
  assumes "192 \<le> b0" "b0 < 224" "cont b1" "128 \<le> (b0 - 192) * 64 + (b1 - 128)"
  shows "utf8_enc1 ((b0 - 192) * 64 + (b1 - 128)) = Some [b0, b1]"
proof -
  obtain x where x: "b0 = 192 + x" using split_byte[OF assms(1)] by blast
  obtain y where y: "b1 = 128 + y"
    using assms(3) split_byte[of 128 b1] unfolding cont_def by blast
  have b: "x < 32" "y < 64" using assms(2,3) x y unfolding cont_def by auto
  have c: "128 \<le> x * 64 + y" using assms(4) x y by simp
  have "x * 64 + y < 2048" using b by simp
  moreover have "(x * 64 + y) div 64 = x" "(x * 64 + y) mod 64 = y" using b by simp_all
  ultimately show ?thesis using c unfolding utf8_enc1_def x y by simp
qed

lemma enc1_three:
  assumes "224 \<le> b0" "b0 < 240" "cont b1" "cont b2"
    "2048 \<le> (b0 - 224) * 4096 + (b1 - 128) * 64 + (b2 - 128)"
    "\<not> surrogate ((b0 - 224) * 4096 + (b1 - 128) * 64 + (b2 - 128))"
  shows "utf8_enc1 ((b0 - 224) * 4096 + (b1 - 128) * 64 + (b2 - 128)) = Some [b0, b1, b2]"
proof -
  obtain x where x: "b0 = 224 + x" using split_byte[OF assms(1)] by blast
  obtain y where y: "b1 = 128 + y"
    using assms(3) split_byte[of 128 b1] unfolding cont_def by blast
  obtain z where z: "b2 = 128 + z"
    using assms(4) split_byte[of 128 b2] unfolding cont_def by blast
  have b: "x < 16" "y < 64" "z < 64" using assms(2,3,4) x y z unfolding cont_def by auto
  define q where "q = x * 64 + y"
  define c where "c = q * 64 + z"
  have ceq: "(b0 - 224) * 4096 + (b1 - 128) * 64 + (b2 - 128) = c"
    by (simp add: c_def q_def x y z)
  have c: "2048 \<le> c" "\<not> surrogate c" using assms(5,6) unfolding ceq by simp_all
  have d1: "c div 64 = q" "c mod 64 = z"
    unfolding c_def using base64_digit[OF b(3)] by simp_all
  have d2: "q div 64 = x" "q mod 64 = y"
    unfolding q_def using base64_digit[OF b(2)] by simp_all
  have "c div 4096 = c div 64 div 64" by (simp add: div_mult2_eq)
  then have d3: "c div 4096 = x" using d1 d2 by simp
  have "c < 65536" using b by (simp add: c_def q_def)
  then have "utf8_enc1 c = Some [224 + x, 128 + y, 128 + z]"
    using c d1 d2 d3 unfolding utf8_enc1_def by simp
  then have "utf8_enc1 c = Some [b0, b1, b2]" by (simp add: x y z)
  then show ?thesis by (simp only: ceq)
qed

lemma enc1_four:
  assumes "240 \<le> b0" "b0 < 248" "cont b1" "cont b2" "cont b3"
    "65536 \<le> (b0 - 240) * 262144 + (b1 - 128) * 4096 + (b2 - 128) * 64 + (b3 - 128)"
    "(b0 - 240) * 262144 + (b1 - 128) * 4096 + (b2 - 128) * 64 + (b3 - 128) < 1114112"
  shows "utf8_enc1 ((b0 - 240) * 262144 + (b1 - 128) * 4096 + (b2 - 128) * 64 + (b3 - 128))
           = Some [b0, b1, b2, b3]"
proof -
  obtain x where x: "b0 = 240 + x" using split_byte[OF assms(1)] by blast
  obtain y where y: "b1 = 128 + y"
    using assms(3) split_byte[of 128 b1] unfolding cont_def by blast
  obtain z where z: "b2 = 128 + z"
    using assms(4) split_byte[of 128 b2] unfolding cont_def by blast
  obtain u where u: "b3 = 128 + u"
    using assms(5) split_byte[of 128 b3] unfolding cont_def by blast
  have b: "x < 8" "y < 64" "z < 64" "u < 64"
    using assms(2,3,4,5) x y z u unfolding cont_def by auto
  define q where "q = x * 64 + y"
  define p where "p = q * 64 + z"
  define c where "c = p * 64 + u"
  have ceq: "(b0 - 240) * 262144 + (b1 - 128) * 4096 + (b2 - 128) * 64 + (b3 - 128) = c"
    by (simp add: c_def p_def q_def x y z u)
  have c: "65536 \<le> c" "c < 1114112" using assms(6,7) unfolding ceq by simp_all
  have s: "\<not> surrogate c" using c by (simp add: surrogate_def)
  have d1: "c div 64 = p" "c mod 64 = u"
    unfolding c_def using base64_digit[OF b(4)] by simp_all
  have d2: "p div 64 = q" "p mod 64 = z"
    unfolding p_def using base64_digit[OF b(3)] by simp_all
  have d3: "q div 64 = x" "q mod 64 = y"
    unfolding q_def using base64_digit[OF b(2)] by simp_all
  have "c div 4096 = c div 64 div 64" by (simp add: div_mult2_eq)
  then have d4: "c div 4096 = q" using d1 d2 by simp
  have "c div 262144 = c div 4096 div 64" by (simp add: div_mult2_eq)
  then have d5: "c div 262144 = x" using d4 d3 by simp
  have "utf8_enc1 c = Some [240 + x, 128 + y, 128 + z, 128 + u]"
    using c s d1 d2 d3 d4 d5 unfolding utf8_enc1_def by simp
  then have "utf8_enc1 c = Some [b0, b1, b2, b3]" by (simp add: x y z u)
  then show ?thesis by (simp only: ceq)
qed

text \<open>Encoding gives back the bytes that were decoded.\<close>

lemma utf8_enc_dec: "utf8_dec bs = Some cs \<Longrightarrow> utf8_enc cs = Some bs"
proof (induction bs arbitrary: cs rule: utf8_dec.induct)
  case 1
  then show ?case by simp
next
  case (2 b0 bs)
  consider (one) "b0 < 128" | (two) "192 \<le> b0" "b0 < 224" | (three) "224 \<le> b0" "b0 < 240"
    | (four) "240 \<le> b0" "b0 < 248" | (bad) "128 \<le> b0" "b0 < 192" | (big) "248 \<le> b0"
    by linarith
  then show ?case
  proof cases
    case one
    with "2.prems" obtain r where r: "utf8_dec bs = Some r" "cs = b0 # r" by auto
    with "2.IH"(1)[OF one r(1)] one show ?thesis by (simp add: enc1_one)
  next
    case two
    with "2.prems" obtain b1 t r where r: "bs = b1 # t" "cont b1"
      "128 \<le> (b0 - 192) * 64 + (b1 - 128)" "utf8_dec t = Some r"
      "cs = ((b0 - 192) * 64 + (b1 - 128)) # r"
      by (auto simp: Let_def split: list.splits if_splits)
    have "utf8_enc r = Some t"
      using "2.IH"(2)[OF _ _ r(1) refl _ r(4)] two r(2,3) by simp
    then show ?thesis using enc1_two[OF two r(2,3)] r(1,5) by simp
  next
    case three
    with "2.prems" obtain b1 b2 t r where r: "bs = b1 # b2 # t" "cont b1" "cont b2"
      "2048 \<le> (b0 - 224) * 4096 + (b1 - 128) * 64 + (b2 - 128)"
      "\<not> surrogate ((b0 - 224) * 4096 + (b1 - 128) * 64 + (b2 - 128))"
      "utf8_dec t = Some r"
      "cs = ((b0 - 224) * 4096 + (b1 - 128) * 64 + (b2 - 128)) # r"
      by (auto simp: Let_def split: list.splits if_splits)
    have "utf8_enc r = Some t"
      using "2.IH"(3)[OF _ _ _ r(1) refl refl _ r(6)] three r(2,3,4,5) by simp
    then show ?thesis using enc1_three[OF three r(2,3,4,5)] r(1,7) by simp
  next
    case four
    with "2.prems" obtain b1 b2 b3 t r where r: "bs = b1 # b2 # b3 # t"
      "cont b1" "cont b2" "cont b3"
      "65536 \<le> (b0 - 240) * 262144 + (b1 - 128) * 4096 + (b2 - 128) * 64 + (b3 - 128)"
      "(b0 - 240) * 262144 + (b1 - 128) * 4096 + (b2 - 128) * 64 + (b3 - 128) < 1114112"
      "utf8_dec t = Some r"
      "cs = ((b0 - 240) * 262144 + (b1 - 128) * 4096 + (b2 - 128) * 64 + (b3 - 128)) # r"
      by (auto simp: Let_def split: list.splits if_splits)
    have "utf8_enc r = Some t"
      using "2.IH"(4)[OF _ _ _ _ r(1) refl refl refl _ r(7)] four r(2,3,4,5,6) by simp
    then show ?thesis using enc1_four[OF four r(2,3,4,5,6)] r(1,8) by simp
  next
    case bad
    with "2.prems" show ?thesis by simp
  next
    case big
    with "2.prems" show ?thesis by simp
  qed
qed

lemma encode_decode_utf8: "decode_utf8 bs = Some s \<Longrightarrow> encode_utf8 s = Some bs"
  by (simp add: decode_utf8_def encode_utf8_def utf8_enc_dec map_idI)

lemma split_nl_nonempty: "split_nl s \<noteq> []"
  by (induction s) (auto split: list.splits)

lemma join_split_nl: "join_nl (split_nl s) = s"
proof (induction s)
  case Nil
  then show ?case by simp
next
  case (Cons c s)
  obtain l ls where l: "split_nl s = l # ls"
    using split_nl_nonempty[of s] by (cases "split_nl s") auto
  show ?case using Cons l by (cases ls) auto
qed

section \<open>The substitution loader\<close>

lemma from_to_pairs_objects:
  assumes "list_all (\<lambda>items. map_of items (cps ''from'') \<noteq> None
             \<and> map_of items (cps ''to'') \<noteq> None) objs"
  shows "from_to_pairs (map JObj objs)
           = Inr (map (\<lambda>items. (the (map_of items (cps ''from'')),
                                 the (map_of items (cps ''to'')))) objs)"
  using assms by (induction objs) (auto simp: subscript_def)

text \<open>
  Claim C2, as the code has it. For a JSON array of objects that each have a \<open>from\<close> key
  and a \<open>to\<close> key, the loader returns the pairs of their values in the order of the
  array; a \<open>to\<close> of null comes back as null. Both keys are read by subscript, so both
  must be there.
\<close>

theorem load_substitutions_pairs:
  assumes "files w p = Some bs"
    and "json_load bs = Inr (JArr (map JObj objs))"
    and "list_all (\<lambda>items. map_of items (cps ''from'') \<noteq> None
           \<and> map_of items (cps ''to'') \<noteq> None) objs"
  shows "load_substitutions json_load w p
           = Inr (map (\<lambda>items. (the (map_of items (cps ''from'')),
                                 the (map_of items (cps ''to'')))) objs)"
  using assms(1,2) from_to_pairs_objects[OF assms(3)]
  by (simp add: load_substitutions_def substitutions_of_def iterate_def)

theorem load_substitutions_pairs_witness:
  "load_substitutions table_json_load table_world table_path
     = Inr [(JStr (cps ''A''), JNull), (JStr (cps ''B''), JStr (cps ''C''))]"
  using load_substitutions_pairs[of table_world table_path "[]" table_json_load table_objs]
  by (simp add: table_world_def table_objs_def table_json_load_def cps_def)

text \<open>
  Claim C2 as stated fails: an element with a \<open>from\<close> and no \<open>to\<close> is not read as
  \<open>to: null\<close>; the subscript raises \<open>KeyError\<close>.
\<close>

theorem load_substitutions_missing_to:
  "substitutions_of (JArr [JObj [(cps ''from'', JStr (cps ''A''))]])
     = Inl (KeyError (cps ''to''))"
  by (simp add: substitutions_of_def iterate_def subscript_def cps_def)

section \<open>The driver\<close>

text \<open>
  Claim C6. If the substitution-file argument does not name an existing regular file, or
  names one whose suffix is not \<open>.json\<close>, \<open>main\<close> returns normally after printing one
  message that starts with the argument; no file is changed and nothing is written.
\<close>

theorem main_aborts_on_bad_table_path:
  assumes "\<not> is_file w (substitution_file a) \<or> suffix_of (substitution_file a) \<noteq> cps ''.json''"
  shows "fst (main uw json_load glob a w) = None
    \<and> files (snd (main uw json_load glob a w)) = files w
    \<and> writes (snd (main uw json_load glob a w)) = writes w
    \<and> console (snd (main uw json_load glob a w))
        = console w @ [substitution_file a
            @ (if \<not> is_file w (substitution_file a)
               then cps '' doesn't point to a file! Aborting...''
               else cps '' doesn't point to a JSON file! Aborting...'')]"
  using assms by (auto simp: main_def Let_def print_def)

theorem main_aborts_on_bad_table_path_witness:
  "is_file txt_world (substitution_file txt_args)
    \<and> suffix_of (substitution_file txt_args) = cps ''.txt''
    \<and> fst (main ascii_only table_json_load no_glob txt_args txt_world) = None
    \<and> files (snd (main ascii_only table_json_load no_glob txt_args txt_world)) = files txt_world
    \<and> writes (snd (main ascii_only table_json_load no_glob txt_args txt_world)) = []
    \<and> console (snd (main ascii_only table_json_load no_glob txt_args txt_world))
        = [cps ''table.txt doesn't point to a JSON file! Aborting...'']"
proof -
  have s: "suffix_of (substitution_file txt_args) = cps ''.txt''"
    by (simp add: txt_args_def suffix_of_def name_of_def cps_def Let_def)
  have f: "is_file txt_world (substitution_file txt_args)"
    by (simp add: txt_args_def txt_world_def is_file_def cps_def)
  have n: "suffix_of (substitution_file txt_args) \<noteq> cps ''.json''"
    unfolding s by (simp add: cps_def)
  show ?thesis
    using main_aborts_on_bad_table_path[of txt_world txt_args ascii_only table_json_load no_glob]
      s f n
    by (simp add: txt_args_def txt_world_def cps_def)
qed

section \<open>Properties of the rewriter\<close>

subsection \<open>The loop over the table\<close>

lemma re_sub_no_match: "\<not> found uw s old \<Longrightarrow> re_sub uw s old new = s"
  by (cases "re_search uw s old 0") (simp_all add: found_def re_sub_def re_sub_from.simps)

lemma foldl_update_distinct:
  assumes "distinct idxs" "\<forall>i\<in>set idxs. i < length xs"
  shows "foldl (\<lambda>kf i. kf[i := f (kf ! i)]) xs idxs
           = map (\<lambda>i. if i \<in> set idxs then f (xs ! i) else xs ! i) [0 ..< length xs]"
  using assms
proof (induction idxs arbitrary: xs)
  case Nil
  then show ?case by (simp add: map_nth)
next
  case (Cons i idxs)
  let ?xs = "xs[i := f (xs ! i)]"
  have "foldl (\<lambda>kf i. kf[i := f (kf ! i)]) ?xs idxs
          = map (\<lambda>k. if k \<in> set idxs then f (?xs ! k) else ?xs ! k) [0 ..< length ?xs]"
    using Cons.prems by (intro Cons.IH) auto
  also have "\<dots> = map (\<lambda>k. if k \<in> set (i # idxs) then f (xs ! k) else xs ! k) [0 ..< length xs]"
    using Cons.prems by (auto simp: nth_list_update)
  finally show ?case by simp
qed

text \<open>The inner loop over the matching lines is the substitution applied to every line.\<close>

lemma update_lines_map:
  "update_lines uw old new kf (lines_to_update uw kf old) = map (\<lambda>l. re_sub uw l old new) kf"
proof -
  have "update_lines uw old new kf (lines_to_update uw kf old)
          = map (\<lambda>i. if i \<in> set (lines_to_update uw kf old)
                      then re_sub uw (kf ! i) old new else kf ! i) [0 ..< length kf]"
    unfolding update_lines_def
    by (rule foldl_update_distinct) (auto simp: lines_to_update_def)
  also have "\<dots> = map (\<lambda>i. re_sub uw (kf ! i) old new) [0 ..< length kf]"
    by (rule map_cong) (auto simp: lines_to_update_def re_sub_no_match)
  also have "\<dots> = map (\<lambda>l. re_sub uw l old new) (map ((!) kf) [0 ..< length kf])"
    by (simp only: map_map comp_def)
  finally show ?thesis by (simp only: map_nth)
qed

lemma lines_to_update_Nil_iff:
  "lines_to_update uw kf old = [] \<longleftrightarrow> list_all (\<lambda>l. \<not> found uw l old) kf"
  by (auto simp: lines_to_update_def filter_empty_conv list_all_length)

lemma map_re_sub_no_match:
  "lines_to_update uw kf old = [] \<Longrightarrow> map (\<lambda>l. re_sub uw l old n) kf = kf"
  by (simp add: lines_to_update_Nil_iff list_all_iff re_sub_no_match map_idI)

lemma substitute_eq:
  "substitute uw dry p (kf, out) sub
     = ((if dry then kf else pass uw sub kf), out @ report uw dry p kf sub)"
  by (cases sub)
     (auto simp: substitute_def report_def pass_def Let_def update_lines_map map_re_sub_no_match
           split: option.splits)

lemma foldl_substitute_dry:
  "foldl (substitute uw True p) (kf, out) subs
     = (kf, out @ concat (map (report uw True p kf) subs))"
  by (induction subs arbitrary: out) (auto simp: substitute_eq)

lemma foldl_substitute_fst:
  "fst (foldl (substitute uw False p) (kf, out) subs) = foldl (\<lambda>ls sub. pass uw sub ls) kf subs"
  by (induction subs arbitrary: kf out) (auto simp: substitute_eq)

lemma foldl_substitute_inert:
  assumes "list_all (\<lambda>sub. snd sub = None \<or> lines_to_update uw kf (fst sub) = []) subs"
  shows "foldl (substitute uw False p) (kf, out) subs
           = (kf, out @ concat (map (report uw False p kf) subs))"
  using assms
proof (induction subs arbitrary: out)
  case Nil
  then show ?case by simp
next
  case (Cons sub subs)
  have "pass uw sub kf = kf"
    using Cons.prems by (auto simp: pass_def map_re_sub_no_match split: option.splits)
  then show ?case using Cons by (simp add: substitute_eq)
qed

subsection \<open>The file\<close>

lemma format_file_eq:
  assumes "files w p = Some bs" "decode_utf8 bs = Some txt"
  shows "format_file uw dry w p subs =
     (case substitute_all uw dry p subs (split_nl txt) of
        (kf, out) \<Rightarrow>
          (case encode_utf8 (join_nl kf) of
             None \<Rightarrow> (Some UnicodeEncodeError, w\<lparr>console := console w @ out\<rparr>)
           | Some bs' \<Rightarrow> (None, write_bytes p bs' (w\<lparr>console := console w @ out\<rparr>))))"
  using assms by (simp add: format_file_def Let_def)

lemma format_file_unchanged:
  assumes "files w p = Some bs" "decode_utf8 bs = Some txt"
    and "substitute_all uw dry p subs (split_nl txt) = (split_nl txt, out)"
  shows "format_file uw dry w p subs
           = (None, w\<lparr>console := console w @ out, writes := writes w @ [p]\<rparr>)"
proof -
  have "encode_utf8 (join_nl (split_nl txt)) = Some bs"
    using assms(2) by (simp add: join_split_nl encode_decode_utf8)
  moreover have "(files w)(p \<mapsto> bs) = files w"
    using assms(1) by (simp add: map_upd_triv)
  ultimately show ?thesis
    using assms by (simp add: format_file_eq write_bytes_def)
qed

lemma format_file_dry:
  assumes "files w p = Some bs" "decode_utf8 bs = Some txt"
  shows "format_file uw True w p subs
           = (None, w\<lparr>console := console w @ concat (map (report uw True p (split_nl txt)) subs),
                        writes := writes w @ [p]\<rparr>)"
  by (rule format_file_unchanged[OF assms]) (simp add: substitute_all_def foldl_substitute_dry)

lemma format_file_inert:
  assumes "files w p = Some bs" "decode_utf8 bs = Some txt"
    and "list_all (\<lambda>sub. snd sub = None \<or> lines_to_update uw (split_nl txt) (fst sub) = []) subs"
  shows "format_file uw False w p subs
           = (None, w\<lparr>console := console w @ concat (map (report uw False p (split_nl txt)) subs),
                        writes := writes w @ [p]\<rparr>)"
  by (rule format_file_unchanged[OF assms(1,2)])
     (simp add: substitute_all_def foldl_substitute_inert[OF assms(3)])

lemma report_no_match: "lines_to_update uw kf (fst sub) = [] \<Longrightarrow> report uw dry p kf sub = []"
  by (simp add: report_def)

lemma concat_report_no_match:
  assumes "list_all (\<lambda>sub. list_all (\<lambda>l. \<not> found uw l (fst sub)) kf) subs"
  shows "concat (map (report uw dry p kf) subs) = []"
  using assms by (induction subs) (simp_all add: report_no_match lines_to_update_Nil_iff)


subsection \<open>Dry run\<close>

text \<open>
  Claim C1, as the code has it. In a dry run on a file that exists and decodes, no
  exception is raised and no file changes content: the write-back after the loop is
  still performed, with the bytes that were read. The console gets, in table order, one
  line per entry of the table whose old keycode is found in some line: the count of the
  matching lines when the entry has a replacement, the no-replacement message when it
  has none.
\<close>

theorem dry_run_rewrites_same_bytes:
  assumes "files w p = Some bs" "decode_utf8 bs = Some txt" "modelled_table subs"
  shows "fst (format_file uw True w p subs) = None
    \<and> files (snd (format_file uw True w p subs)) = files w
    \<and> writes (snd (format_file uw True w p subs)) = writes w @ [p]
    \<and> console (snd (format_file uw True w p subs))
        = console w @ concat (map (report uw True p (split_nl txt)) subs)"
  using format_file_dry[OF assms(1,2)] by simp


theorem dry_run_rewrites_same_bytes_witness:
  "files (keymap_world dry_bytes) my_keymap = Some dry_bytes
    \<and> decode_utf8 dry_bytes = Some (join_nl dry_lines)
    \<and> modelled_table dry_table
    \<and> fst (format_file ascii_only True (keymap_world dry_bytes) my_keymap dry_table) = None
    \<and> files (snd (format_file ascii_only True (keymap_world dry_bytes) my_keymap dry_table))
        = files (keymap_world dry_bytes)
    \<and> writes (snd (format_file ascii_only True (keymap_world dry_bytes) my_keymap dry_table))
        = [my_keymap]
    \<and> console (snd (format_file ascii_only True (keymap_world dry_bytes) my_keymap dry_table))
        = [cps ''Would have replaced OLD with NEW on 1 lines.'',
           cps ''my.keymap contains GONE, which currently has no replacement!'']"
proof -
  have h1: "files (keymap_world dry_bytes) my_keymap = Some dry_bytes"
    by (simp add: keymap_world_def)
  have h2: "decode_utf8 dry_bytes = Some (join_nl dry_lines)" by code_simp
  have h3: "modelled_table dry_table" by code_simp
  have c: "concat (map (report ascii_only True my_keymap (split_nl (join_nl dry_lines))) dry_table)
             = [cps ''Would have replaced OLD with NEW on 1 lines.'',
                cps ''my.keymap contains GONE, which currently has no replacement!'']"
    by code_simp
  have w: "writes (keymap_world dry_bytes) = []" "console (keymap_world dry_bytes) = []"
    by (simp_all add: keymap_world_def)
  show ?thesis
    using dry_run_rewrites_same_bytes[OF h1 h2 h3, of ascii_only] h1 h2 h3
    by (simp only: c w append_Nil simp_thms)
qed

text \<open>
  Claim C1 as stated fails: a dry run does perform a write of the file, and prints
  nothing for an entry whose keycode is in no line (here two lines for three entries).
\<close>

theorem dry_run_writes_file:
  "writes (keymap_world dry_bytes) = []
    \<and> writes (snd (format_file ascii_only True (keymap_world dry_bytes) my_keymap dry_table))
        = [my_keymap]
    \<and> length dry_table = 3
    \<and> console (snd (format_file ascii_only True (keymap_world dry_bytes) my_keymap dry_table))
        = [cps ''Would have replaced OLD with NEW on 1 lines.'',
           cps ''my.keymap contains GONE, which currently has no replacement!'']"
  by code_simp

subsection \<open>Tables that change nothing\<close>

lemma inert_of_no_match:
  assumes "list_all (\<lambda>sub. list_all (\<lambda>l. \<not> found uw l (fst sub)) kf) subs"
  shows "list_all (\<lambda>sub. snd sub = None \<or> lines_to_update uw kf (fst sub) = []) subs"
  using assms by (simp add: list_all_iff lines_to_update_Nil_iff)


lemma no_ampersand_not_found: "38 \<notin> set s \<Longrightarrow> \<not> found uw s old"
proof
  assume n: "38 \<notin> set s" and "found uw s old"
  then obtain m where "re_search uw s old 0 = Some m" by (auto simp: found_def)
  moreover obtain i g e where "m = (i, g, e)" by (cases m)
  ultimately have "match_at uw s old i = Some (i, g, e)" by (simp add: re_search_SomeD(3))
  then have "i < length s" "s ! i = 38" by (simp_all add: match_at_SomeD(2,3))
  then have "38 \<in> set s" by (metis nth_mem)
  then show False using n by simp
qed

text \<open>
  Claim C3. For a file of valid UTF-8 and a table none of whose old keycodes is found in
  any line of the file, a run that is not a dry run raises nothing, writes the file back
  with exactly the bytes it had, and prints nothing. The bytes may encode characters of
  any length.
\<close>

theorem unmatched_file_bytes_unchanged:
  assumes "files w p = Some bs" "decode_utf8 bs = Some txt" "modelled_table subs"
    and "list_all (\<lambda>sub. list_all (\<lambda>l. \<not> found uw l (fst sub)) (split_nl txt)) subs"
  shows "fst (format_file uw False w p subs) = None
    \<and> files (snd (format_file uw False w p subs)) = files w
    \<and> files (snd (format_file uw False w p subs)) p = Some bs
    \<and> writes (snd (format_file uw False w p subs)) = writes w @ [p]
    \<and> console (snd (format_file uw False w p subs)) = console w"
  using format_file_inert[OF assms(1,2) inert_of_no_match[OF assms(4)]]
    concat_report_no_match[OF assms(4), of False p] assms(1)
  by simp

theorem unmatched_file_bytes_unchanged_witness:
  "files (keymap_world utf8_bytes) my_keymap = Some utf8_bytes
    \<and> decode_utf8 utf8_bytes = Some utf8_text
    \<and> modelled_table dry_table
    \<and> list_all (\<lambda>sub. list_all (\<lambda>l. \<not> found ascii_only l (fst sub)) (split_nl utf8_text))
         dry_table
    \<and> fst (format_file ascii_only False (keymap_world utf8_bytes) my_keymap dry_table) = None
    \<and> files (snd (format_file ascii_only False (keymap_world utf8_bytes) my_keymap dry_table))
         my_keymap = Some utf8_bytes
    \<and> writes (snd (format_file ascii_only False (keymap_world utf8_bytes) my_keymap dry_table))
         = [my_keymap]
    \<and> console (snd (format_file ascii_only False (keymap_world utf8_bytes) my_keymap dry_table))
         = []"
proof -
  have h1: "files (keymap_world utf8_bytes) my_keymap = Some utf8_bytes"
    by (simp add: keymap_world_def)
  have h2: "decode_utf8 utf8_bytes = Some utf8_text"
    by (simp add: decode_utf8_def utf8_bytes_def utf8_text_def cont_def surrogate_def Let_def)
  have h3: "modelled_table dry_table" by code_simp
  have sp: "split_nl utf8_text = [[38, 107, 112, 32, 233], [8364, 32, 128512]]"
    by (simp add: utf8_text_def)
  have a: "list_all (\<lambda>sub. \<not> found ascii_only [38, 107, 112, 32, 233] (fst sub)) dry_table"
    by code_simp
  have b: "\<not> found ascii_only [8364, 32, 128512] old" for old
    by (rule no_ampersand_not_found) simp
  have h4: "list_all (\<lambda>sub. list_all (\<lambda>l. \<not> found ascii_only l (fst sub)) (split_nl utf8_text))
         dry_table"
    using a b by (simp add: sp list_all_iff)
  have w: "writes (keymap_world utf8_bytes) = []" "console (keymap_world utf8_bytes) = []"
    by (simp_all add: keymap_world_def)
  show ?thesis
    using unmatched_file_bytes_unchanged[OF h1 h2 h3 h4] h1 h2 h3 h4
    by (simp only: w append_Nil simp_thms)
qed







subsection \<open>Order of the substitutions\<close>

lemma format_file_fold:
  assumes "files w p = Some bs" "decode_utf8 bs = Some txt"
    and "encode_utf8 (join_nl (foldl (\<lambda>kf sub. pass uw sub kf) (split_nl txt) subs)) = Some bs'"
  shows "fst (format_file uw False w p subs) = None"
    "files (snd (format_file uw False w p subs)) = (files w)(p \<mapsto> bs')"
proof -
  obtain kf out where s: "substitute_all uw False p subs (split_nl txt) = (kf, out)"
    by (cases "substitute_all uw False p subs (split_nl txt)")
  have "kf = foldl (\<lambda>kf sub. pass uw sub kf) (split_nl txt) subs"
    using foldl_substitute_fst[of uw p "split_nl txt" "[]" subs] s
    by (simp add: substitute_all_def)
  then have e: "encode_utf8 (join_nl kf) = Some bs'" using assms(3) by simp
  show "fst (format_file uw False w p subs) = None"
    "files (snd (format_file uw False w p subs)) = (files w)(p \<mapsto> bs')"
    using s e by (simp_all add: format_file_eq[OF assms(1,2)] write_bytes_def)
qed

text \<open>
  Claim C7. The lines after the loop are the left-to-right fold, over the table, of the
  passes of the single substitutions over the lines of the file, each pass working on the
  lines as the passes before it left them; the file written holds the bytes of these
  lines. In the witness the second entry renames the keycode the first entry wrote.
\<close>

theorem substitutions_applied_in_order:
  assumes "files w p = Some bs" "decode_utf8 bs = Some txt" "modelled_table subs"
    and "encode_utf8 (join_nl (foldl (\<lambda>kf sub. pass uw sub kf) (split_nl txt) subs)) = Some bs'"
  shows "fst (substitute_all uw False p subs (split_nl txt))
           = foldl (\<lambda>kf sub. pass uw sub kf) (split_nl txt) subs
    \<and> fst (format_file uw False w p subs) = None
    \<and> files (snd (format_file uw False w p subs)) = (files w)(p \<mapsto> bs')"
  using format_file_fold[OF assms(1,2,4)] foldl_substitute_fst[of uw p "split_nl txt" "[]" subs]
  by (simp add: substitute_all_def)

theorem substitutions_applied_in_order_witness:
  "files (keymap_world chain_bytes) my_keymap = Some chain_bytes
    \<and> decode_utf8 chain_bytes = Some (join_nl chain_lines)
    \<and> modelled_table chain_table
    \<and> encode_utf8 (join_nl (foldl (\<lambda>kf sub. pass ascii_only sub kf)
          (split_nl (join_nl chain_lines)) chain_table))
        = Some (ascii_bytes ''&kp C'' @ [10] @ ascii_bytes ''&kp C'')
    \<and> fst (substitute_all ascii_only False my_keymap chain_table (split_nl (join_nl chain_lines)))
        = [cps ''&kp C'', cps ''&kp C'']
    \<and> fst (format_file ascii_only False (keymap_world chain_bytes) my_keymap chain_table) = None
    \<and> files (snd (format_file ascii_only False (keymap_world chain_bytes) my_keymap chain_table))
         my_keymap = Some (ascii_bytes ''&kp C'' @ [10] @ ascii_bytes ''&kp C'')"
proof -
  have h1: "files (keymap_world chain_bytes) my_keymap = Some chain_bytes"
    by (simp add: keymap_world_def)
  have h2: "decode_utf8 chain_bytes = Some (join_nl chain_lines)" by code_simp
  have h3: "modelled_table chain_table" by code_simp
  have f: "foldl (\<lambda>kf sub. pass ascii_only sub kf) (split_nl (join_nl chain_lines)) chain_table
             = [cps ''&kp C'', cps ''&kp C'']"
    by code_simp
  have h4: "encode_utf8 (join_nl (foldl (\<lambda>kf sub. pass ascii_only sub kf)
          (split_nl (join_nl chain_lines)) chain_table))
        = Some (ascii_bytes ''&kp C'' @ [10] @ ascii_bytes ''&kp C'')"
    by code_simp
  show ?thesis
    using substitutions_applied_in_order[OF h1 h2 h3 h4] h1 h2 h3 h4
    by (simp add: f)
qed

subsection \<open>Where the pattern matches\<close>

lemma word_run_word_at:
  assumes "k < word_run uw s p"
  shows "word_at uw s (p + k)"
proof -
  let ?xs = "drop p s"
  have k: "k < length (takeWhile (is_word uw) ?xs)" using assms by (simp add: word_run_def)
  then have "takeWhile (is_word uw) ?xs ! k \<in> set (takeWhile (is_word uw) ?xs)" by simp
  then have "is_word uw (takeWhile (is_word uw) ?xs ! k)"
    by (rule set_takeWhileD[THEN conjunct2])
  moreover have "takeWhile (is_word uw) ?xs ! k = ?xs ! k" using k by (rule takeWhile_nth)
  moreover have "k < length ?xs" using k length_takeWhile_le[of "is_word uw" ?xs] by linarith
  ultimately show ?thesis by (simp add: word_at_def)
qed

lemma lit_at_nth:
  assumes "lit_at s m t" "k < length t"
  shows "m + k < length s" "s ! (m + k) = t ! k"
proof -
  have eq: "take (length t) (drop m s) = t" using assms(1) by (simp add: lit_at_def)
  have "length t \<le> length (drop m s)"
    using arg_cong[OF eq, of length] by simp
  then show len: "m + k < length s" using assms(2) by simp
  have "t ! k = take (length t) (drop m s) ! k" by (simp add: eq)
  also have "\<dots> = s ! (m + k)" using assms(2) len by simp
  finally show "s ! (m + k) = t ! k" by simp
qed

lemma plain_nth_word: "plain_keycode uw t \<Longrightarrow> k < length t \<Longrightarrow> is_word uw (t ! k)"
  by (simp add: plain_keycode_def list_all_length)

lemma plain_lit_word_at:
  assumes "plain_keycode uw old" "lit_at s m old" "k < length old"
  shows "word_at uw s (m + k)"
  using lit_at_nth[OF assms(2,3)] plain_nth_word[OF assms(1,3)] by (simp add: word_at_def)

lemma plain_nonempty: "plain_keycode uw old \<Longrightarrow> 0 < length old"
  by (simp add: plain_keycode_def)

lemma not_word_space: "\<not> is_word uw 32"
  by (simp add: is_word_def is_digit_def)

lemma word_not_metachar: "is_word uw c \<Longrightarrow> \<not> metachar c"
  by (auto simp: is_word_def is_digit_def metachar_def split: if_splits)

lemma plain_literal_pattern: "plain_keycode uw t \<Longrightarrow> literal_pattern t"
  by (auto simp: plain_keycode_def literal_pattern_def list_all_iff dest: word_not_metachar)

text \<open>
  A keycode of word characters can only start where the run of word characters after the
  space starts: further in, the position before it holds a word character too, and there
  is no word boundary.
\<close>

lemma plain_token_starts_run:
  assumes p: "plain_keycode uw old"
    and l: "lit_at s y old"
    and b: "at_boundary uw s y"
    and r: "j + 1 \<le> y" "y \<le> j + 1 + word_run uw s (j + 1)"
  shows "y = j + 1"
proof (rule ccontr)
  assume "y \<noteq> j + 1"
  with r have lt: "j + 1 < y" by simp
  define k where "k = y - 1 - (j + 1)"
  have k: "k < word_run uw s (j + 1)" "j + 1 + k = y - 1" using lt r(2) by (simp_all add: k_def)
  have "word_at uw s (j + 1 + k)" using k(1) by (rule word_run_word_at)
  then have w1: "word_at uw s (y - 1)" by (simp only: k(2))
  have "word_at uw s (y + 0)" using p l plain_nonempty[OF p] by (rule plain_lit_word_at)
  then have w2: "word_at uw s y" by simp
  have "0 < y" using lt by simp
  then show False using b w1 w2 by (simp add: at_boundary_def)
qed

lemma token_after_plain:
  assumes "plain_keycode uw old" "token_after uw s old j = Some m"
  shows "m = j + 1"
proof -
  note d = token_after_SomeD[OF assms(2)]
  have "j + 1 \<le> m" using d(3) by simp
  then show ?thesis using plain_token_starts_run[OF assms(1) d(6) d(5) _ d(4)] by simp
qed

lemma find_unique:
  assumes "x \<in> set xs" "P x" "\<And>y. y \<in> set xs \<Longrightarrow> P y \<Longrightarrow> y = x"
  shows "find P xs = Some x"
  using assms
proof (induction xs)
  case Nil
  then show ?case by simp
next
  case (Cons a xs)
  show ?case
  proof (cases "P a")
    case True
    then have "a = x" using Cons.prems(3)[of a] by simp
    then show ?thesis using True by simp
  next
    case False
    then have "x \<in> set xs" using Cons.prems(1,2) by auto
    then have "find P xs = Some x"
      using Cons.prems(2,3) by (intro Cons.IH) simp_all
    then show ?thesis using False by simp
  qed
qed

lemma token_after_plain_intro:
  assumes p: "plain_keycode uw old"
    and j: "j < length s" "s ! j = 32"
    and l: "lit_at s (j + 1) old"
    and e: "\<not> word_at uw s (j + 1 + length old)"
  shows "token_after uw s old j = Some (j + 1)"
proof -
  let ?Q = "\<lambda>m. at_boundary uw s m \<and> lit_at s m old \<and> at_boundary uw s (m + length old)"
  let ?xs = "rev [j + 1 ..< j + 1 + word_run uw s (j + 1) + 1]"
  have n: "0 < length old" using p by (rule plain_nonempty)
  have w0: "\<not> word_at uw s j" using j not_word_space[of uw] by (simp add: word_at_def)
  have "word_at uw s (j + 1 + 0)" using p l n by (rule plain_lit_word_at)
  then have w1: "word_at uw s (j + 1)" by simp
  have b1: "at_boundary uw s (j + 1)" using w0 w1 by (simp add: at_boundary_def)
  define k where "k = length old - 1"
  have k: "k < length old" "j + 1 + k = j + 1 + length old - 1" using n by (simp_all add: k_def)
  have "word_at uw s (j + 1 + k)" using p l k(1) by (rule plain_lit_word_at)
  then have w2: "word_at uw s (j + 1 + length old - 1)" by (simp only: k(2))
  have b2: "at_boundary uw s (j + 1 + length old)" using e w2 by (simp add: at_boundary_def)
  have Q: "?Q (j + 1)" using b1 b2 l by blast
  have mem: "j + 1 \<in> set ?xs" unfolding set_rev set_upt by simp
  have uniq: "y = j + 1" if "y \<in> set ?xs" "?Q y" for y
  proof -
    have "y \<in> {j + 1 ..< j + 1 + word_run uw s (j + 1) + 1}"
      using that(1) unfolding set_rev set_upt .
    then have r: "j + 1 \<le> y" "y \<le> j + 1 + word_run uw s (j + 1)" by simp_all
    have "lit_at s y old" "at_boundary uw s y" using that(2) by blast+
    with p show ?thesis using r by (rule plain_token_starts_run)
  qed
  have "find ?Q ?xs = Some (j + 1)" using mem Q uniq by (rule find_unique)
  then show ?thesis unfolding token_after_def using j by (simp only: if_True simp_thms)
qed

lemma anchor_ends_cases:
  assumes "j \<in> set (anchor_ends uw s i)"
  shows "(j = i + 11 \<and> lit_at s (i + 1) (cps ''inc_dec_'')
            \<and> (s ! (i + 9) = 107 \<or> s ! (i + 9) = 99) \<and> s ! (i + 10) = 112)
         \<or> (j = i + 3 \<and> word_at uw s (i + 1) \<and> word_at uw s (i + 2))"
  using assms by (auto simp: anchor_ends_def split: if_splits)

text \<open>A match of a keycode of word characters has it as the first argument of a binding.\<close>

lemma match_at_plain:
  assumes p: "plain_keycode uw old" and m: "match_at uw s old i = Some (i', g, e)"
  shows "i' = i" "e = g + length old" "lit_at s g old" "first_argument uw s g"
    "at_boundary uw s (g + length old)" "s ! i = 38"
proof -
  note d = match_at_SomeD[OF m]
  show "i' = i" "e = g + length old" "s ! i = 38" using d by simp_all
  from d(5) obtain j where j: "j \<in> set (anchor_ends uw s i)" "token_after uw s old j = Some g"
    by blast
  note t = token_after_SomeD[OF j(2)]
  have g: "g = j + 1" using p j(2) by (rule token_after_plain)
  show "lit_at s g old" "at_boundary uw s (g + length old)" using t by simp_all
  from anchor_ends_cases[OF j(1)] show "first_argument uw s g"
  proof
    assume a: "j = i + 11 \<and> lit_at s (i + 1) (cps ''inc_dec_'')
            \<and> (s ! (i + 9) = 107 \<or> s ! (i + 9) = 99) \<and> s ! (i + 10) = 112"
    then have e: "g - 1 = i + 11" "g - 12 = i" "g - 11 = i + 1" "g - 3 = i + 9"
      "g - 2 = i + 10" "12 \<le> g"
      using g by simp_all
    show ?thesis unfolding first_argument_def e using a t(1,2) d(3) e(6) by simp
  next
    assume a: "j = i + 3 \<and> word_at uw s (i + 1) \<and> word_at uw s (i + 2)"
    then have e: "g - 1 = i + 3" "g - 4 = i" "g - 3 = i + 1" "g - 2 = i + 2" "4 \<le> g"
      using g by simp_all
    show ?thesis unfolding first_argument_def e using a t(1,2) d(3) e(5) by simp
  qed
qed


subsection \<open>What the substitution changes\<close>

lemma take_take_drop:
  assumes "pos \<le> i" "i \<le> g"
  shows "take (i - pos) (drop pos s) @ take (g - i) (drop i s) = take (g - pos) (drop pos s)"
proof -
  have "take (g - pos) (drop pos s) = take ((i - pos) + (g - i)) (drop pos s)"
    using assms by simp
  also have "\<dots> = take (i - pos) (drop pos s) @ take (g - i) (drop (i - pos) (drop pos s))"
    by (rule take_add)
  also have "drop (i - pos) (drop pos s) = drop i s" using assms by simp
  finally show ?thesis by simp
qed

text \<open>
  The result of \<open>sub\<close> is the line with the new keycode in the place of the old one at the
  ends of the first groups of its matches, and nothing else changed.
\<close>

lemma re_sub_from_splice:
  "(\<forall>i g e. match_at uw s old i = Some (i, g, e) \<longrightarrow> P g) \<Longrightarrow>
     \<exists>ms. sites P (length old) ms pos
           \<and> re_sub_from uw s old new pos = splice s (length old) new ms pos"
proof (induction uw s old new pos rule: re_sub_from.induct)
  case (1 uw s old new pos)
  note site = "1.prems"[rule_format]
  show ?case
  proof (cases "re_search uw s old pos")
    case None
    then have "re_sub_from uw s old new pos = splice s (length old) new [] pos"
      by (simp add: re_sub_from.simps)
    moreover have "sites P (length old) [] pos" by simp
    ultimately show ?thesis by blast
  next
    case (Some m)
    obtain i g e where m: "m = (i, g, e)" by (cases m)
    note r = re_search_SomeD[OF Some[unfolded m]]
    note b = match_at_bounds[OF r(3)]
    have e: "e = g + length old" using r(3) by (rule match_at_SomeD(4))
    from "1.IH"[OF Some[unfolded m] refl refl "1.prems"]
    obtain ms where ms: "sites P (length old) ms e"
      "re_sub_from uw s old new e = splice s (length old) new ms e" by blast
    have "re_sub_from uw s old new pos
            = (take (i - pos) (drop pos s) @ take (g - i) (drop i s)) @ new
                @ re_sub_from uw s old new e"
      using Some m by (simp add: re_sub_from.simps)
    also have "\<dots> = take (g - pos) (drop pos s) @ new @ splice s (length old) new ms e"
      using r(1) b ms(2) by (simp add: take_take_drop)
    finally have "re_sub_from uw s old new pos = splice s (length old) new (g # ms) pos"
      by (simp add: e)
    moreover have "sites P (length old) (g # ms) pos"
      using ms(1) r(1) b e site[OF r(3)] by simp
    ultimately show ?thesis by blast
  qed
qed

lemma match_at_token_site:
  assumes "match_at uw s old i = Some (i, g, e)"
  shows "token_site s old g"
proof -
  from match_at_SomeD(5)[OF assms] obtain j where j: "token_after uw s old j = Some g" by blast
  note t = token_after_SomeD[OF j]
  have eq: "take (length old) (drop g s) = old" using t(6) by (simp add: lit_at_def)
  have "length (take (length old) (drop g s)) = length old" by (simp only: eq)
  then have "length old \<le> length s - g" by simp
  moreover have "g \<le> length s"
    using t(1,4) length_takeWhile_le[of "is_word uw" "drop (j + 1) s"]
    by (simp add: word_run_def)
  ultimately show ?thesis using t(6) by (simp add: token_site_def)
qed

lemma first_some_None_iff: "first_some f xs = None \<longleftrightarrow> (\<forall>x\<in>set xs. f x = None)"
  by (induction xs) (auto split: option.splits)

lemma first_some_skip:
  assumes "\<forall>x\<in>set xs. f x = None"
  shows "first_some f (xs @ ys) = first_some f ys"
  using assms by (induction xs) simp_all

lemma first_some_split:
  assumes "first_some f xs = Some y"
  shows "\<exists>as x bs. xs = as @ x # bs \<and> (\<forall>a\<in>set as. f a = None) \<and> f x = Some y"
  using assms
proof (induction xs)
  case Nil
  then show ?case by simp
next
  case (Cons a xs)
  show ?case
  proof (cases "f a")
    case None
    then have "first_some f xs = Some y" using Cons.prems by simp
    then obtain as x bs where r: "xs = as @ x # bs" "\<forall>a\<in>set as. f a = None" "f x = Some y"
      using Cons.IH by blast
    then have "a # xs = (a # as) @ x # bs" "\<forall>c\<in>set (a # as). f c = None"
      using None by simp_all
    then show ?thesis using r(3) by blast
  next
    case (Some z)
    then have "z = y" using Cons.prems by simp
    then have "a # xs = [] @ a # xs" "\<forall>c\<in>set []. f c = None" "f a = Some y"
      using Some by simp_all
    then show ?thesis by blast
  qed
qed

lemma upt_split_at:
  assumes "[pos ..< n] = as @ i # bs"
  shows "as = [pos ..< i]" "pos \<le> i" "i < n"
proof -
  have len: "length as < n - pos" using arg_cong[OF assms, of length] by simp
  have "i = [pos ..< n] ! length as" by (simp add: assms)
  then have i: "i = pos + length as" using len by simp
  then show "pos \<le> i" "i < n" using len by simp_all
  have "as = take (length as) [pos ..< n]" by (simp add: assms)
  also have "\<dots> = [pos ..< i]" using len i by (simp add: take_upt)
  finally show "as = [pos ..< i]" .
qed

text \<open>A search finds the match at the first position that has one.\<close>

lemma re_search_None_iff:
  "re_search uw s old pos = None
     \<longleftrightarrow> list_all (\<lambda>j. match_at uw s old j = None) [pos ..< length s]"
  by (simp add: re_search_def first_some_None_iff list_all_iff)

lemma re_search_first:
  assumes "re_search uw s old pos = Some (i, g, e)"
  shows "list_all (\<lambda>j. match_at uw s old j = None) [pos ..< i]"
proof -
  from first_some_split[OF assms[unfolded re_search_def]]
  obtain as x bs where r: "[pos ..< length s] = as @ x # bs"
    "\<forall>a\<in>set as. match_at uw s old a = None" "match_at uw s old x = Some (i, g, e)"
    by blast
  have "x = i" using match_at_SomeD(1)[OF r(3)] by simp
  then have "as = [pos ..< i]" using upt_split_at(1)[OF r(1)] by simp
  then show ?thesis using r(2) by (simp add: list_all_iff)
qed

lemma re_search_intro:
  assumes "pos \<le> i" "list_all (\<lambda>j. match_at uw s old j = None) [pos ..< i]"
    "match_at uw s old i = Some m"
  shows "re_search uw s old pos = Some m"
proof -
  obtain i' g e where m: "m = (i', g, e)" by (cases m)
  have lt: "i < length s" using assms(3) unfolding m by (rule match_at_SomeD(2))
  have "[pos ..< length s] = [pos ..< i] @ i # [Suc i ..< length s]"
    using assms(1) lt by (metis le_Suc_ex less_imp_le_nat upt_add_eq_append upt_conv_Cons)
  then have "re_search uw s old pos = first_some (match_at uw s old) (i # [Suc i ..< length s])"
    using assms(2) by (simp add: re_search_def first_some_skip list_all_iff)
  then show ?thesis using assms(3) by simp
qed

lemma match_sites_exist: "\<exists>ms. match_sites uw s old ms pos"
proof (induction uw s old "[] :: ustr" pos rule: re_sub_from.induct)
  case (1 uw s old pos)
  show ?case
  proof (cases "re_search uw s old pos")
    case None
    then have "match_sites uw s old [] pos" by (simp add: re_search_None_iff)
    then show ?thesis by blast
  next
    case (Some m)
    obtain i g e where m: "m = (i, g, e)" by (cases m)
    note r = re_search_SomeD[OF Some[unfolded m]]
    from "1.hyps"[OF Some[unfolded m] refl refl]
    obtain ms where "match_sites uw s old ms e" by blast
    then have "match_sites uw s old ((i, g, e) # ms) pos"
      using r(1,3) re_search_first[OF Some[unfolded m]] by simp
    then show ?thesis by blast
  qed
qed

lemma re_sub_from_regions:
  "match_sites uw s old ms pos \<Longrightarrow> re_sub_from uw s old new pos = replace_regions s new ms pos"
proof (induction ms arbitrary: pos)
  case Nil
  then have "re_search uw s old pos = None" by (simp add: re_search_None_iff)
  then show ?case by (simp add: re_sub_from.simps)
next
  case (Cons m ms)
  obtain i g e where m: "m = (i, g, e)" by (cases m)
  have r: "re_search uw s old pos = Some (i, g, e)"
    using Cons.prems by (intro re_search_intro[of pos i]) (simp_all add: m)
  have "re_sub_from uw s old new e = replace_regions s new ms e"
    using Cons.prems by (intro Cons.IH) (simp add: m)
  then show ?case using r by (simp add: re_sub_from.simps[of uw s old new pos] m)
qed

lemma regions_splice:
  "match_sites uw s old ms pos \<Longrightarrow>
     replace_regions s new ms pos = splice s (length old) new (map (\<lambda>m. fst (snd m)) ms) pos
     \<and> list_all (\<lambda>m. token_site s old (fst (snd m))
                     \<and> snd (snd m) = fst (snd m) + length old) ms"
proof (induction ms arbitrary: pos)
  case Nil
  then show ?case by simp
next
  case (Cons m ms)
  obtain i g e where m: "m = (i, g, e)" by (cases m)
  have ma: "match_at uw s old i = Some (i, g, e)" "pos \<le> i" "match_sites uw s old ms e"
    using Cons.prems by (simp_all add: m)
  note b = match_at_bounds[OF ma(1)]
  have e: "e = g + length old" using ma(1) by (rule match_at_SomeD(4))
  note ih = Cons.IH[OF ma(3)]
  have "take (i - pos) (drop pos s) @ take (g - i) (drop i s) = take (g - pos) (drop pos s)"
    using ma(2) b by (simp add: take_take_drop)
  then have "replace_regions s new (m # ms) pos
      = take (g - pos) (drop pos s) @ new @ replace_regions s new ms e"
    by (simp add: m)
  then have "replace_regions s new (m # ms) pos
      = splice s (length old) new (map (\<lambda>m. fst (snd m)) (m # ms)) pos"
    using ih by (simp add: m e)
  moreover have "token_site s old g" using ma(1) by (rule match_at_token_site)
  ultimately show ?case using ih e by (simp add: m)
qed

lemma match_sites_search:
  "match_sites uw s old ms pos \<Longrightarrow>
     re_search uw s old pos = (case ms of [] \<Rightarrow> None | m # _ \<Rightarrow> Some m)"
proof (cases ms)
  case Nil
  assume "match_sites uw s old ms pos"
  then show ?thesis using Nil by (simp add: re_search_None_iff)
next
  case (Cons m ms')
  assume "match_sites uw s old ms pos"
  then have "re_search uw s old pos = Some m"
    unfolding Cons by (intro re_search_intro[of pos "fst m"]) simp_all
  then show ?thesis using Cons by simp
qed

text \<open>The matches of a line are determined: there is one list of them.\<close>

lemma match_sites_unique:
  "match_sites uw s old ms pos \<Longrightarrow> match_sites uw s old ms' pos \<Longrightarrow> ms = ms'"
proof (induction ms arbitrary: ms' pos)
  case Nil
  then show ?case using match_sites_search[OF Nil(1)] match_sites_search[OF Nil(2)]
    by (cases ms') simp_all
next
  case (Cons m ms)
  from match_sites_search[OF Cons.prems(1)] match_sites_search[OF Cons.prems(2)]
  obtain ms2 where ms': "ms' = m # ms2" by (cases ms') simp_all
  have "ms = ms2" using Cons.prems unfolding ms' by (intro Cons.IH[of "snd (snd m)"]) simp_all
  then show ?case by (simp add: ms')
qed

lemma no_site_not_found:
  assumes p: "plain_keycode uw old"
    and n: "\<And>m. m < length s \<Longrightarrow> lit_at s m old \<Longrightarrow> first_argument uw s m
                \<Longrightarrow> at_boundary uw s (m + length old) \<Longrightarrow> False"
  shows "\<not> found uw s old"
proof
  assume "found uw s old"
  then obtain m where "re_search uw s old 0 = Some m" by (auto simp: found_def)
  moreover obtain i g e where "m = (i, g, e)" by (cases m)
  ultimately have "match_at uw s old i = Some (i, g, e)" by (simp add: re_search_SomeD(3))
  note f = match_at_plain[OF p this]
  have "g + 0 < length s" using f(3) plain_nonempty[OF p] by (rule lit_at_nth(1))
  then show False using n[of g] f(3,4,5) by simp
qed

subsection \<open>Lines with one binding\<close>

lemma re_search_at_start:
  assumes "match_at uw s old 0 = Some m"
  shows "re_search uw s old 0 = Some m"
proof -
  obtain i g e where m: "m = (i, g, e)" by (cases m)
  have "0 < length s" using match_at_SomeD(2)[OF assms[unfolded m]] .
  then have "[0 ..< length s] = 0 # [1 ..< length s]" by (simp add: upt_conv_Cons)
  then show ?thesis using assms by (simp add: re_search_def)
qed

lemma re_search_at_end: "re_search uw s old (length s) = None"
  by (simp add: re_search_def)

lemma re_sub_single:
  assumes "match_at uw s old 0 = Some (0, g, g + length old)" "length s = g + length old"
  shows "re_sub uw s old new = take g s @ new" "found uw s old"
proof -
  have r: "re_search uw s old 0 = Some (0, g, g + length old)"
    using assms(1) by (rule re_search_at_start)
  have "re_sub_from uw s old new (g + length old) = []"
    using re_search_at_end[of uw s old] assms(2) by (simp add: re_sub_from.simps)
  then show "re_sub uw s old new = take g s @ new"
    using r by (simp add: re_sub_def re_sub_from.simps[of uw s old new 0])
  show "found uw s old" using r by (simp add: found_def)
qed

lemma inc_dec_nth:
  assumes "lit_at s (i + 1) (cps ''inc_dec_'')"
  shows "s ! (i + 3) = 99"
proof -
  have "i + 1 + 2 = i + 3" by simp
  then show ?thesis using lit_at_nth(2)[OF assms, of 2] by (simp only: cps_def) simp
qed

lemma anchor_ends_two:
  assumes "s ! (i + 3) = 32" "word_at uw s (i + 1)" "word_at uw s (i + 2)"
  shows "anchor_ends uw s i = [i + 3]"
proof -
  have "\<not> lit_at s (i + 1) (cps ''inc_dec_'')" using inc_dec_nth[of s i] assms(1) by auto
  then show ?thesis using assms(2,3) by (simp add: anchor_ends_def)
qed

lemma match_at_two:
  assumes p: "plain_keycode uw old"
    and s: "s = [38, a, b, 32] @ old @ x" "is_word uw a" "is_word uw b"
    and x: "x = [] \<or> \<not> is_word uw (hd x)"
  shows "match_at uw s old 0 = Some (0, 4, 4 + length old)"
proof -
  have a: "anchor_ends uw s 0 = [3]"
    using anchor_ends_two[of s 0 uw] s by (simp add: word_at_def)
  have l: "lit_at s (3 + 1) old" by (simp add: s(1) lit_at_def)
  have e: "\<not> word_at uw s (3 + 1 + length old)"
    using x by (auto simp: s(1) word_at_def nth_append hd_conv_nth)
  have "token_after uw s old 3 = Some (3 + 1)"
    using p _ _ l e by (rule token_after_plain_intro) (simp_all add: s(1))
  then show ?thesis using a by (simp add: match_at_def s(1))
qed

lemma anchor_ends_inc_dec:
  assumes "s = 38 # cps ''inc_dec_'' @ [c, 112, 32] @ r" "c = 107 \<or> c = 99"
  shows "anchor_ends uw s 0 = [11, 3]"
  using assms
  by (auto simp: anchor_ends_def lit_at_def cps_def word_at_def is_word_def is_digit_def)

lemma match_at_inc_dec:
  assumes p: "plain_keycode uw old"
    and s: "s = 38 # cps ''inc_dec_'' @ [c, 112, 32] @ old @ x" "c = 107 \<or> c = 99"
    and x: "x = [] \<or> \<not> is_word uw (hd x)"
  shows "match_at uw s old 0 = Some (0, 12, 12 + length old)"
proof -
  have a: "anchor_ends uw s 0 = [11, 3]" using s by (rule anchor_ends_inc_dec)
  have l: "lit_at s (11 + 1) old" by (simp add: s(1) lit_at_def cps_def)
  have e: "\<not> word_at uw s (11 + 1 + length old)"
    using x by (auto simp: s(1) word_at_def nth_append hd_conv_nth cps_def)
  have "token_after uw s old 11 = Some (11 + 1)"
    using p _ _ l e by (rule token_after_plain_intro) (simp_all add: s(1) cps_def)
  then show ?thesis using a by (simp add: match_at_def s(1))
qed

lemma two_anchor_space:
  assumes s: "s = [38, a, b, 32] @ w" "is_word uw a" "is_word uw b" "list_all (is_word uw) w"
    and k: "k < length s" "s ! k = 32"
  shows "k = 3"
proof (cases "k < 4")
  case True
  then consider "k = 0" | "k = 1" | "k = 2" | "k = 3" by linarith
  then show ?thesis using k(2) s(2,3) not_word_space[of uw] by cases (auto simp: s(1))
next
  case False
  then obtain j where j: "k = 4 + j" using le_Suc_ex[of 4 k] by auto
  have "s ! k = w ! j" "j < length w" using k(1) by (simp_all add: s(1) j)
  then have "is_word uw (s ! k)" using s(4) by (simp add: list_all_length)
  then show ?thesis using k(2) not_word_space[of uw] by simp
qed

lemma two_anchor_longer_word:
  assumes p: "plain_keycode uw old"
    and s: "s = [38, a, b, 32] @ old @ x" "is_word uw a" "is_word uw b"
    and x: "x \<noteq> []" "list_all (is_word uw) x"
  shows "\<not> found uw s old"
proof (rule no_site_not_found[OF p])
  fix m
  assume m: "m < length s" "lit_at s m old" "first_argument uw s m"
    "at_boundary uw s (m + length old)"
  have w: "list_all (is_word uw) (old @ x)" using p x(2) by (simp add: plain_keycode_def)
  have "m - 1 < length s" "s ! (m - 1) = 32" "4 \<le> m" using m(3) by (auto simp: first_argument_def)
  then have m4: "m = 4" using two_anchor_space[OF s(1,2,3) w, of "m - 1"] by simp
  have n: "0 < length old" using p by (rule plain_nonempty)
  have "s ! (4 + length old - 1) = old ! (length old - 1)" using n by (simp add: s(1) nth_append)
  then have "is_word uw (s ! (4 + length old - 1))"
    using plain_nth_word[OF p, of "length old - 1"] n by simp
  then have w1: "word_at uw s (4 + length old - 1)" using x(1) by (simp add: word_at_def s(1))
  have "s ! (4 + length old) = hd x" using x(1) by (simp add: s(1) nth_append hd_conv_nth)
  then have w2: "word_at uw s (4 + length old)"
    using x by (cases x) (simp_all add: word_at_def s(1))
  show False using m(4) w1 w2 unfolding m4 by (simp add: at_boundary_def)
qed

lemma substitute_all_single:
  "fst (substitute_all uw False p [(old, Some new)] kf) = map (\<lambda>l. re_sub uw l old new) kf"
  by (simp add: substitute_all_def substitute_eq pass_def)

lemma cps_kp: "cps ''&kp '' = [38, 107, 112, 32]"
  by (simp add: cps_def)

lemma kp_rewritten:
  assumes "plain_keycode uw old"
  shows "re_sub uw (cps ''&kp '' @ old) old new = cps ''&kp '' @ new"
    "found uw (cps ''&kp '' @ old) old"
proof -
  have m: "match_at uw (cps ''&kp '' @ old) old 0 = Some (0, 4, 4 + length old)"
    using match_at_two[OF assms, of "cps ''&kp '' @ old" 107 112 "[]"]
    by (simp add: cps_kp is_word_def)
  show "re_sub uw (cps ''&kp '' @ old) old new = cps ''&kp '' @ new"
    using re_sub_single(1)[OF m] by (simp add: cps_kp)
  show "found uw (cps ''&kp '' @ old) old" using re_sub_single(2)[OF m] by (simp add: cps_kp)
qed

lemma kp_longer_unchanged:
  assumes "plain_keycode uw old" "x \<noteq> []" "list_all (is_word uw) x"
  shows "re_sub uw (cps ''&kp '' @ old @ x) old new = cps ''&kp '' @ old @ x"
proof -
  have "\<not> found uw (cps ''&kp '' @ old @ x) old"
    using two_anchor_longer_word[OF assms(1) _ _ _ assms(2,3), of "cps ''&kp '' @ old @ x" 107 112]
    by (simp add: cps_kp is_word_def)
  then show ?thesis by (rule re_sub_no_match)
qed

lemma inc_dec_rewritten:
  assumes "plain_keycode uw old" "c = 107 \<or> c = 99"
  shows "re_sub uw (cps ''&inc_dec_'' @ [c, 112, 32] @ old) old new
           = cps ''&inc_dec_'' @ [c, 112, 32] @ new"
    "found uw (cps ''&inc_dec_'' @ [c, 112, 32] @ old) old"
proof -
  let ?s = "cps ''&inc_dec_'' @ [c, 112, 32] @ old"
  have m: "match_at uw ?s old 0 = Some (0, 12, 12 + length old)"
    using match_at_inc_dec[OF assms(1) _ assms(2), of ?s "[]"] by (simp add: cps_def)
  show "re_sub uw ?s old new = cps ''&inc_dec_'' @ [c, 112, 32] @ new"
    using re_sub_single(1)[OF m] by (simp add: cps_def)
  show "found uw ?s old" using re_sub_single(2)[OF m] by (simp add: cps_def)
qed

subsection \<open>Rewriting a binding\<close>

text \<open>
  Claim C4. For a table with the one entry (old, new), old a keycode of word characters,
  a run that is not a dry run turns a line \<^verbatim>\<open>&kp \<close>old into \<^verbatim>\<open>&kp \<close>new, and leaves as it
  is a line \<^verbatim>\<open>&kp \<close>old x in which word characters x follow the old keycode.
\<close>

theorem kp_line_rewritten:
  assumes "plain_keycode uw old" "literal_replacement new"
    and "x \<noteq> []" "list_all (is_word uw) x" "k < length kf"
  shows "(kf ! k = cps ''&kp '' @ old \<longrightarrow>
            fst (substitute_all uw False p [(old, Some new)] kf) ! k = cps ''&kp '' @ new)
    \<and> (kf ! k = cps ''&kp '' @ old @ x \<longrightarrow>
            fst (substitute_all uw False p [(old, Some new)] kf) ! k = cps ''&kp '' @ old @ x)"
  using assms(5) kp_rewritten(1)[OF assms(1), of new] kp_longer_unchanged[OF assms(1,3,4), of new]
  by (simp add: substitute_all_single)

theorem kp_line_rewritten_witness:
  "plain_keycode ascii_only (cps ''OLD'') \<and> literal_replacement (cps ''NEW'')
    \<and> fst (substitute_all ascii_only False my_keymap old_new kp_lines) ! 0 = cps ''&kp NEW''
    \<and> fst (substitute_all ascii_only False my_keymap old_new kp_lines) ! 1 = cps ''&kp OLDX''
    \<and> files (snd (format_file ascii_only False (keymap_world kp_bytes) my_keymap old_new))
         my_keymap = Some (ascii_bytes ''&kp NEW'' @ [10] @ ascii_bytes ''&kp OLDX'')"
proof -
  have hp: "plain_keycode ascii_only (cps ''OLD'')" by code_simp
  have hl: "literal_replacement (cps ''NEW'')" by code_simp
  have hx: "cps ''X'' \<noteq> []" "list_all (is_word ascii_only) (cps ''X'')" by code_simp+
  have k: "0 < length kp_lines" "1 < length kp_lines" by (simp_all add: kp_lines_def)
  have e0: "kp_lines ! 0 = cps ''&kp '' @ cps ''OLD''" by (simp add: kp_lines_def cps_def)
  have e1: "kp_lines ! 1 = cps ''&kp '' @ cps ''OLD'' @ cps ''X''"
    by (simp add: kp_lines_def cps_def)
  have r0: "fst (substitute_all ascii_only False my_keymap [(cps ''OLD'', Some (cps ''NEW''))]
              kp_lines) ! 0 = cps ''&kp '' @ cps ''NEW''"
    using kp_line_rewritten[OF hp hl hx k(1), of my_keymap] e0 by blast
  have r1: "fst (substitute_all ascii_only False my_keymap [(cps ''OLD'', Some (cps ''NEW''))]
              kp_lines) ! 1 = cps ''&kp '' @ cps ''OLD'' @ cps ''X''"
    using kp_line_rewritten[OF hp hl hx k(2), of my_keymap] e1 by blast
  have c: "cps ''&kp '' @ cps ''NEW'' = cps ''&kp NEW''"
    "cps ''&kp '' @ cps ''OLD'' @ cps ''X'' = cps ''&kp OLDX''"
    by (simp_all add: cps_def)
  have f: "files (snd (format_file ascii_only False (keymap_world kp_bytes) my_keymap old_new))
         my_keymap = Some (ascii_bytes ''&kp NEW'' @ [10] @ ascii_bytes ''&kp OLDX'')"
    by code_simp
  show ?thesis using hp hl r0 r1 f by (simp only: c old_new_def simp_thms)
qed

text \<open>
  Claim C9. A line \<^verbatim>\<open>&inc_dec_kp \<close>old, and likewise \<^verbatim>\<open>&inc_dec_cp \<close>old, is matched by the
  pattern for old and rewritten with new in the place of old, as a line \<^verbatim>\<open>&kp \<close>old is.
\<close>

theorem inc_dec_line_rewritten:
  assumes "plain_keycode uw old" "literal_replacement new" "k < length kf"
  shows "(kf ! k = cps ''&inc_dec_kp '' @ old \<longrightarrow>
            found uw (kf ! k) old
            \<and> fst (substitute_all uw False p [(old, Some new)] kf) ! k
                = cps ''&inc_dec_kp '' @ new)
    \<and> (kf ! k = cps ''&inc_dec_cp '' @ old \<longrightarrow>
            found uw (kf ! k) old
            \<and> fst (substitute_all uw False p [(old, Some new)] kf) ! k
                = cps ''&inc_dec_cp '' @ new)
    \<and> (kf ! k = cps ''&kp '' @ old \<longrightarrow>
            found uw (kf ! k) old
            \<and> fst (substitute_all uw False p [(old, Some new)] kf) ! k = cps ''&kp '' @ new)"
proof -
  have a: "cps ''&inc_dec_kp '' = cps ''&inc_dec_'' @ [107, 112, 32]"
    "cps ''&inc_dec_cp '' = cps ''&inc_dec_'' @ [99, 112, 32]"
    by (simp_all add: cps_def)
  show ?thesis
    using assms(3) inc_dec_rewritten(1)[OF assms(1), of 107 new]
      inc_dec_rewritten(2)[OF assms(1), of 107]
      inc_dec_rewritten(1)[OF assms(1), of 99 new] inc_dec_rewritten(2)[OF assms(1), of 99]
      kp_rewritten(1)[OF assms(1), of new] kp_rewritten(2)[OF assms(1)]
    by (simp add: substitute_all_single a)
qed

theorem inc_dec_line_rewritten_witness:
  "plain_keycode ascii_only (cps ''OLD'') \<and> literal_replacement (cps ''NEW'')
    \<and> found ascii_only (cps ''&inc_dec_kp OLD'') (cps ''OLD'')
    \<and> found ascii_only (cps ''&inc_dec_cp OLD'') (cps ''OLD'')
    \<and> found ascii_only (cps ''&kp OLD'') (cps ''OLD'')
    \<and> fst (substitute_all ascii_only False my_keymap old_new inc_dec_lines) ! 0
        = cps ''&inc_dec_kp NEW''
    \<and> fst (substitute_all ascii_only False my_keymap old_new inc_dec_lines) ! 1
        = cps ''&inc_dec_cp NEW''
    \<and> fst (substitute_all ascii_only False my_keymap old_new inc_dec_lines) ! 2
        = cps ''&kp NEW''"
proof -
  have hp: "plain_keycode ascii_only (cps ''OLD'')" by code_simp
  have hl: "literal_replacement (cps ''NEW'')" by code_simp
  have k: "0 < length inc_dec_lines" "1 < length inc_dec_lines" "2 < length inc_dec_lines"
    by (simp_all add: inc_dec_lines_def)
  have e: "inc_dec_lines ! 0 = cps ''&inc_dec_kp '' @ cps ''OLD''"
    "inc_dec_lines ! 1 = cps ''&inc_dec_cp '' @ cps ''OLD''"
    "inc_dec_lines ! 2 = cps ''&kp '' @ cps ''OLD''"
    by (simp_all add: inc_dec_lines_def cps_def)
  note t = inc_dec_line_rewritten[OF hp hl, of _ inc_dec_lines my_keymap]
  have r0: "found ascii_only (inc_dec_lines ! 0) (cps ''OLD'')
     \<and> fst (substitute_all ascii_only False my_keymap [(cps ''OLD'', Some (cps ''NEW''))]
              inc_dec_lines) ! 0 = cps ''&inc_dec_kp '' @ cps ''NEW''"
    using t[OF k(1)] e(1) by blast
  have r1: "found ascii_only (inc_dec_lines ! 1) (cps ''OLD'')
     \<and> fst (substitute_all ascii_only False my_keymap [(cps ''OLD'', Some (cps ''NEW''))]
              inc_dec_lines) ! 1 = cps ''&inc_dec_cp '' @ cps ''NEW''"
    using t[OF k(2)] e(2) by blast
  have r2: "found ascii_only (inc_dec_lines ! 2) (cps ''OLD'')
     \<and> fst (substitute_all ascii_only False my_keymap [(cps ''OLD'', Some (cps ''NEW''))]
              inc_dec_lines) ! 2 = cps ''&kp '' @ cps ''NEW''"
    using t[OF k(3)] e(3) by blast
  have c: "cps ''&inc_dec_kp '' @ cps ''NEW'' = cps ''&inc_dec_kp NEW''"
    "cps ''&inc_dec_cp '' @ cps ''NEW'' = cps ''&inc_dec_cp NEW''"
    "cps ''&kp '' @ cps ''NEW'' = cps ''&kp NEW''"
    "cps ''&inc_dec_kp '' @ cps ''OLD'' = cps ''&inc_dec_kp OLD''"
    "cps ''&inc_dec_cp '' @ cps ''OLD'' = cps ''&inc_dec_cp OLD''"
    "cps ''&kp '' @ cps ''OLD'' = cps ''&kp OLD''"
    by (simp_all add: cps_def)
  show ?thesis using hp hl r0 r1 r2 by (simp only: e c old_new_def simp_thms)
qed

subsection \<open>What a substitution leaves alone\<close>

lemma substitute_replacing:
  "substitute uw False p (kf, out) (old, Some new) = (map (\<lambda>l. re_sub uw l old new) kf, out)"
  by (simp add: substitute_eq pass_def report_def)

lemma re_sub_first_arg_sites:
  assumes "plain_keycode uw old"
  shows "\<exists>ms. sites (first_arg_site uw s old) (length old) ms 0
        \<and> re_sub uw s old new = splice s (length old) new ms 0"
  unfolding re_sub_def
  by (rule re_sub_from_splice) (simp add: first_arg_site_def match_at_plain(3,4)[OF assms])

lemma no_first_arg_site_not_found:
  assumes p: "plain_keycode uw old"
    and n: "list_all (\<lambda>m. \<not> first_arg_site uw s old m) [0 ..< length s]"
  shows "\<not> found uw s old"
proof (rule no_site_not_found[OF p])
  fix m
  assume "m < length s" "lit_at s m old" "first_argument uw s m"
  then have "m \<in> set [0 ..< length s]" "first_arg_site uw s old m"
    by (simp_all add: first_arg_site_def)
  then show False using n by (simp add: list_all_iff)
qed

lemma foldl_pass_unmatched:
  assumes "k < length kf" "list_all (\<lambda>sub. \<not> found uw (kf ! k) (fst sub)) subs"
  shows "length (foldl (\<lambda>ls sub. pass uw sub ls) kf subs) = length kf
       \<and> foldl (\<lambda>ls sub. pass uw sub ls) kf subs ! k = kf ! k"
  using assms
proof (induction subs arbitrary: kf)
  case Nil
  then show ?case by simp
next
  case (Cons sub subs)
  have l: "length (pass uw sub kf) = length kf"
    by (simp add: pass_def split: option.splits)
  have n: "pass uw sub kf ! k = kf ! k"
    using Cons.prems by (simp add: pass_def re_sub_no_match split: option.splits)
  have "k < length (pass uw sub kf)"
    "list_all (\<lambda>sub'. \<not> found uw (pass uw sub kf ! k) (fst sub')) subs"
    using Cons.prems by (simp_all add: l n)
  from Cons.IH[OF this] show ?case by (simp add: l n)
qed

lemma re_sub_regions:
  assumes "match_sites uw s old ms 0"
  shows "re_sub uw s old new = replace_regions s new ms 0"
    "re_sub uw s old new = splice s (length old) new (map (\<lambda>m. fst (snd m)) ms) 0"
    "list_all (\<lambda>m. token_site s old (fst (snd m))
                 \<and> snd (snd m) = fst (snd m) + length old) ms"
  using re_sub_from_regions[OF assms, of new] regions_splice[OF assms, of new]
  by (simp_all add: re_sub_def)

text \<open>
  Claim C8. One iteration of the loop that substitutes (not a dry run, an entry with a
  replacement) prints nothing and keeps the number of lines. Each line has one list of
  matches of the pattern, found from left to right, each at the first position after the
  match before it; the line of the result is the line it was with each of these matches
  replaced by the text of its first group, unchanged, followed by the new keycode, and
  every character outside the matches copied. This is the line with the new keycode put
  in the place of the old one at the ends of the first groups, where the old keycode
  stands, and nowhere else. A line in which the pattern of the entry is not found is
  unchanged, and a line in which the pattern of no entry of the table is found is
  unchanged by the whole loop.
\<close>

theorem only_keycode_swapped:
  assumes "literal_pattern old" "literal_replacement new" "k < length kf" "modelled_table subs"
  shows "snd (substitute uw False p (kf, out) (old, Some new)) = out
    \<and> length (fst (substitute uw False p (kf, out) (old, Some new))) = length kf
    \<and> (\<exists>ms. match_sites uw (kf ! k) old ms 0)
    \<and> (\<forall>ms. match_sites uw (kf ! k) old ms 0 \<longrightarrow>
          fst (substitute uw False p (kf, out) (old, Some new)) ! k
            = replace_regions (kf ! k) new ms 0
          \<and> fst (substitute uw False p (kf, out) (old, Some new)) ! k
            = splice (kf ! k) (length old) new (map (\<lambda>m. fst (snd m)) ms) 0
          \<and> list_all (\<lambda>m. token_site (kf ! k) old (fst (snd m))
                          \<and> snd (snd m) = fst (snd m) + length old) ms)
    \<and> (\<not> found uw (kf ! k) old \<longrightarrow>
          fst (substitute uw False p (kf, out) (old, Some new)) ! k = kf ! k)
    \<and> (list_all (\<lambda>sub. \<not> found uw (kf ! k) (fst sub)) subs \<longrightarrow>
          fst (substitute_all uw False p subs kf) ! k = kf ! k)"
proof -
  have r: "fst (substitute uw False p (kf, out) (old, Some new)) ! k = re_sub uw (kf ! k) old new"
    using assms(3) by (simp add: substitute_replacing)
  have a: "snd (substitute uw False p (kf, out) (old, Some new)) = out"
    "length (fst (substitute uw False p (kf, out) (old, Some new))) = length kf"
    by (simp_all add: substitute_replacing)
  have b: "\<exists>ms. match_sites uw (kf ! k) old ms 0" by (rule match_sites_exist)
  have c: "\<not> found uw (kf ! k) old \<longrightarrow> re_sub uw (kf ! k) old new = kf ! k"
    by (simp add: re_sub_no_match)
  have d: "re_sub uw (kf ! k) old new = replace_regions (kf ! k) new ms 0
      \<and> re_sub uw (kf ! k) old new
          = splice (kf ! k) (length old) new (map (\<lambda>m. fst (snd m)) ms) 0
      \<and> list_all (\<lambda>m. token_site (kf ! k) old (fst (snd m))
                      \<and> snd (snd m) = fst (snd m) + length old) ms"
    if "match_sites uw (kf ! k) old ms 0" for ms
    using re_sub_regions(1)[OF that, of new] re_sub_regions(2)[OF that, of new]
      re_sub_regions(3)[OF that]
    by simp
  have e: "list_all (\<lambda>sub. \<not> found uw (kf ! k) (fst sub)) subs \<longrightarrow>
          fst (substitute_all uw False p subs kf) ! k = kf ! k"
    using foldl_pass_unmatched[OF assms(3), of uw subs]
    by (simp add: substitute_all_def foldl_substitute_fst)
  show ?thesis unfolding r using a b c d e by blast
qed

theorem only_keycode_swapped_witness:
  "literal_pattern (cps ''OLD'') \<and> literal_replacement (cps ''NEW'')
    \<and> modelled_table swap_table
    \<and> match_sites ascii_only (swap_lines ! 0) (cps ''OLD'') swap_sites 0
    \<and> fst (substitute ascii_only False my_keymap (swap_lines, [])
             (cps ''OLD'', Some (cps ''NEW''))) ! 0
        = replace_regions (swap_lines ! 0) (cps ''NEW'') swap_sites 0
    \<and> replace_regions (swap_lines ! 0) (cps ''NEW'') swap_sites 0
        = cps ''  bindings = <&kp NEW &mt LSHIFT OLD &inc_dec_kp NEW>;''
    \<and> \<not> found ascii_only (swap_lines ! 1) (cps ''OLD'')
    \<and> fst (substitute ascii_only False my_keymap (swap_lines, [])
             (cps ''OLD'', Some (cps ''NEW''))) ! 1 = swap_lines ! 1
    \<and> list_all (\<lambda>sub. \<not> found ascii_only (swap_lines ! 1) (fst sub)) swap_table
    \<and> fst (substitute_all ascii_only False my_keymap swap_table swap_lines) ! 1 = swap_lines ! 1
    \<and> fst (substitute_all ascii_only False my_keymap swap_table swap_lines) ! 0
        = cps ''  bindings = <&kp NEW &mt LSHFT OLD &inc_dec_kp NEW>;''"
proof -
  have hp: "literal_pattern (cps ''OLD'')" by code_simp
  have hl: "literal_replacement (cps ''NEW'')" by code_simp
  have k: "0 < length swap_lines" "1 < length swap_lines" by (simp_all add: swap_lines_def)
  have ht: "modelled_table swap_table" by code_simp
  have hm: "match_sites ascii_only (swap_lines ! 0) (cps ''OLD'') swap_sites 0" by code_simp
  have n: "\<not> found ascii_only (swap_lines ! 1) (cps ''OLD'')" by code_simp
  have nt: "list_all (\<lambda>sub. \<not> found ascii_only (swap_lines ! 1) (fst sub)) swap_table"
    by code_simp
  note t0 = only_keycode_swapped[OF hp hl k(1) ht, of ascii_only my_keymap "[]"]
  note t1 = only_keycode_swapped[OF hp hl k(2) ht, of ascii_only my_keymap "[]"]
  have r0: "fst (substitute ascii_only False my_keymap (swap_lines, [])
             (cps ''OLD'', Some (cps ''NEW''))) ! 0
        = replace_regions (swap_lines ! 0) (cps ''NEW'') swap_sites 0"
    using t0 hm by blast
  have r1: "fst (substitute ascii_only False my_keymap (swap_lines, [])
             (cps ''OLD'', Some (cps ''NEW''))) ! 1 = swap_lines ! 1"
    using t1 n by blast
  have r2: "fst (substitute_all ascii_only False my_keymap swap_table swap_lines) ! 1
             = swap_lines ! 1"
    using t1 nt by blast
  have v: "replace_regions (swap_lines ! 0) (cps ''NEW'') swap_sites 0
        = cps ''  bindings = <&kp NEW &mt LSHIFT OLD &inc_dec_kp NEW>;''"
    by code_simp
  have v2: "fst (substitute_all ascii_only False my_keymap swap_table swap_lines) ! 0
        = cps ''  bindings = <&kp NEW &mt LSHFT OLD &inc_dec_kp NEW>;''"
    by code_simp
  show ?thesis using hp hl ht hm r0 v n r1 nt r2 v2 by blast
qed

text \<open>
  Claim C10. For an old keycode of word characters, the positions where a substitution
  puts the new keycode are all positions of a first argument: directly after the one
  space that follows the anchor. So a line in which the old keycode never stands as a
  first argument, as in \<^verbatim>\<open>&mt MOD OLD\<close>, is not matched and is left unchanged.
\<close>

theorem later_argument_untouched:
  assumes "plain_keycode uw old" "literal_replacement new" "k < length kf"
  shows "(\<exists>ms. sites (first_arg_site uw (kf ! k) old) (length old) ms 0
          \<and> fst (substitute_all uw False p [(old, Some new)] kf) ! k
              = splice (kf ! k) (length old) new ms 0)
    \<and> (list_all (\<lambda>m. \<not> first_arg_site uw (kf ! k) old m) [0 ..< length (kf ! k)] \<longrightarrow>
          \<not> found uw (kf ! k) old
          \<and> fst (substitute_all uw False p [(old, Some new)] kf) ! k = kf ! k)"
  using assms(3) re_sub_first_arg_sites[OF assms(1), of "kf ! k" new]
    no_first_arg_site_not_found[OF assms(1), of "kf ! k"]
    re_sub_no_match[of uw "kf ! k" old new]
  by (auto simp: substitute_all_single)

theorem later_argument_untouched_witness:
  "plain_keycode ascii_only (cps ''OLD'') \<and> literal_replacement (cps ''NEW'')
    \<and> list_all (\<lambda>m. \<not> first_arg_site ascii_only (mt_lines ! 0) (cps ''OLD'') m)
         [0 ..< length (mt_lines ! 0)]
    \<and> \<not> found ascii_only (cps ''&mt MOD OLD'') (cps ''OLD'')
    \<and> fst (substitute_all ascii_only False my_keymap old_new mt_lines) ! 0 = cps ''&mt MOD OLD''
    \<and> fst (substitute_all ascii_only False my_keymap old_new mt_lines) ! 1 = cps ''&kp NEW OLD''"
proof -
  have hp: "plain_keycode ascii_only (cps ''OLD'')" by code_simp
  have hl: "literal_replacement (cps ''NEW'')" by code_simp
  have k: "0 < length mt_lines" by (simp add: mt_lines_def)
  have h: "list_all (\<lambda>m. \<not> first_arg_site ascii_only (mt_lines ! 0) (cps ''OLD'') m)
         [0 ..< length (mt_lines ! 0)]" by code_simp
  have e: "mt_lines ! 0 = cps ''&mt MOD OLD''" by (simp add: mt_lines_def)
  have r: "\<not> found ascii_only (mt_lines ! 0) (cps ''OLD'')
     \<and> fst (substitute_all ascii_only False my_keymap [(cps ''OLD'', Some (cps ''NEW''))]
              mt_lines) ! 0 = mt_lines ! 0"
    using later_argument_untouched[OF hp hl k, of my_keymap] h by blast
  have v: "fst (substitute_all ascii_only False my_keymap old_new mt_lines) ! 1
             = cps ''&kp NEW OLD''" by code_simp
  show ?thesis using hp hl h r v by (simp only: e old_new_def simp_thms)
qed

end
